theory Spec2Isabelle
  imports Complex_Main "HOL-Library.Word"
begin

section \<open>Checked unsigned bytes (\<open>SafeUnsigned<std::uint8_t>\<close>)\<close>

text \<open>
  The engine counts depths and levels in \<open>SafeUnsigned<std::uint8_t>\<close>: an 8-bit value
  whose arithmetic first asserts that the result fits. An assertion that fails, an array
  read outside its bounds, a division by zero and an exhausted recursion budget are
  values of \<open>error\<close>.
\<close>

type_synonym su8 = "8 word"

datatype error = AssertionFailed | OutOfBounds | DivisionByZero | OutOfFuel

definition su8_add :: "su8 \<Rightarrow> su8 \<Rightarrow> error + su8" where
  "su8_add a b = (if b \<le> 255 - a then Inr (a + b) else Inl AssertionFailed)"

definition su8_sub :: "su8 \<Rightarrow> su8 \<Rightarrow> error + su8" where
  "su8_sub a b = (if b \<le> a then Inr (a - b) else Inl AssertionFailed)"

definition su8_mod :: "su8 \<Rightarrow> su8 \<Rightarrow> error + su8" where
  "su8_mod a b = (if b \<noteq> 0 then Inr (a mod b) else Inl AssertionFailed)"

text \<open>\<open>subToMin\<close>: subtract, but never go below \<open>min\<close>.\<close>

definition subToMin :: "su8 \<Rightarrow> su8 \<Rightarrow> su8 \<Rightarrow> error + su8" where
  "subToMin this subbed minv =
     (if \<not> minv \<le> this then Inl AssertionFailed
      else if this < subbed then Inr minv
      else (case su8_sub this subbed of
              Inl e \<Rightarrow> Inl e
            | Inr diff \<Rightarrow> Inr (if diff < minv then minv else diff)))"

section \<open>Moves, ratings and move priorities\<close>

text \<open>
  Modelled from the spec: \<open>Piece\<close>, \<open>Move\<close> and \<open>Rating\<close> are declared in modules that are
  not part of the sources at hand. A move is a record of origin square, destination
  square, moved piece, captured piece and promotion piece, with a distinguished null
  value; a rating is a signed scalar. Its values are real numbers here; the search only
  compares ratings, and the functions that compute with them (the vote) take the
  rounding of the machine arithmetic as a parameter.
\<close>

datatype Piece = Piece_None | Pawn | Knight | Bishop | Rook | Queen | King

record Move =
  move_from :: nat
  move_to :: nat
  movedPiece :: Piece
  capturedPiece :: Piece
  promotionPiece :: Piece

definition Move_null :: Move where
  "Move_null = \<lparr>move_from = 64, move_to = 64, movedPiece = Piece_None,
                capturedPiece = Piece_None, promotionPiece = Piece_None\<rparr>"

type_synonym Rating = real

record MovePriority =
  m_move :: Move
  m_exchangeRating :: Rating
  m_recommendedDepth :: su8
  m_trimmed :: bool

text \<open>The two constructors: from a move and the parent's depth, and from a move and an
  explicit depth.\<close>

definition MovePriority_of_parent :: "Move \<Rightarrow> Rating \<Rightarrow> su8 \<Rightarrow> error + MovePriority" where
  "MovePriority_of_parent mv exch d =
     (case su8_sub d 1 of
        Inl e \<Rightarrow> Inl e
      | Inr d1 \<Rightarrow> Inr \<lparr>m_move = mv, m_exchangeRating = exch,
                       m_recommendedDepth = d1, m_trimmed = False\<rparr>)"

definition MovePriority_full :: "Move \<Rightarrow> su8 \<Rightarrow> MovePriority" where
  "MovePriority_full mv d =
     \<lparr>m_move = mv, m_exchangeRating = 0, m_recommendedDepth = d, m_trimmed = False\<rparr>"

definition MAX_MOVE_COUNT :: nat where
  "MAX_MOVE_COUNT = 219"

text \<open>
  \<open>trim\<close> reads \<open>LOG_TABLE\<close> (219 doubles) at \<open>recommendedDepth + 1\<close> and at
  \<open>moveIndex + 1\<close> and converts \<open>0.99 + logDepth * logI / 3.14\<close> to a byte. The
  floating-point value is the parameter \<open>lmr\<close>, a function of the two table indices;
  what \<open>trim\<close> does with it is modelled as written.
\<close>

definition trim :: "(nat \<Rightarrow> nat \<Rightarrow> su8) \<Rightarrow> MovePriority \<Rightarrow> su8 \<Rightarrow> error + MovePriority" where
  "trim lmr mp moveIndex =
     (case su8_add (m_recommendedDepth mp) 1 of
        Inl e \<Rightarrow> Inl e
      | Inr d1 \<Rightarrow>
          if \<not> unat d1 < MAX_MOVE_COUNT then Inl OutOfBounds
          else (case su8_add moveIndex 1 of
                  Inl e \<Rightarrow> Inl e
                | Inr i1 \<Rightarrow>
                    if \<not> unat i1 < MAX_MOVE_COUNT then Inl OutOfBounds
                    else (case subToMin d1 (lmr (unat d1) (unat i1)) 0 of
                            Inl e \<Rightarrow> Inl e
                          | Inr subbed \<Rightarrow>
                              Inr (mp\<lparr>m_trimmed := True,
                                      m_recommendedDepth :=
                                        min (m_recommendedDepth mp) subbed\<rparr>))))"

section \<open>The search worker\<close>

record AlphaBeta =
  m_alpha :: Rating
  m_beta :: Rating

definition updateAlpha :: "AlphaBeta \<Rightarrow> Rating \<Rightarrow> AlphaBeta" where
  "updateAlpha ab childRating = ab\<lparr>m_alpha := max childRating (m_alpha ab)\<rparr>"

definition updateBeta :: "AlphaBeta \<Rightarrow> Rating \<Rightarrow> AlphaBeta" where
  "updateBeta ab childRating = ab\<lparr>m_beta := min childRating (m_beta ab)\<rparr>"

definition update :: "bool \<Rightarrow> AlphaBeta \<Rightarrow> Rating \<Rightarrow> AlphaBeta" where
  "update maximizing ab childRating =
     (if maximizing then updateAlpha ab childRating else updateBeta ab childRating)"

definition canPrune :: "AlphaBeta \<Rightarrow> bool" where
  "canPrune ab = (m_beta ab \<le> m_alpha ab)"

record MoveRating =
  move :: Move
  rating :: Rating
  invalidTTEntry :: bool
  checkmateLevel :: "su8 option"

definition MoveRating_default :: MoveRating where
  "MoveRating_default =
     \<lparr>move = Move_null, rating = 0, invalidTTEntry = False, checkmateLevel = None\<rparr>"

definition MoveRating3 :: "Move \<Rightarrow> Rating \<Rightarrow> bool \<Rightarrow> MoveRating" where
  "MoveRating3 mv r invalid =
     \<lparr>move = mv, rating = r, invalidTTEntry = invalid, checkmateLevel = None\<rparr>"

datatype Bound = InWindow | LowerBound | UpperBound

record PositionEntry =
  bestMove :: Move
  entryRating :: Rating
  entryDepth :: su8
  bound :: Bound

definition MAX_DEPTH :: nat where
  "MAX_DEPTH = 30"

definition MAX_KILLER_MOVES :: nat where
  "MAX_KILLER_MOVES = 3"

definition RANDOMIZATION_CUTOFF :: su8 where
  "RANDOMIZATION_CUTOFF = 3"

record KillerMoveEntries =
  killerMoves :: "Move list"
  index :: nat

text \<open>A worker: its random generator, the helper flag, one killer-move ring per level
  (an array of \<open>MAX_DEPTH\<close> rings of \<open>MAX_KILLER_MOVES\<close> moves) and the depth it is told
  to search.\<close>

record 'g Searcher =
  m_urbg :: 'g
  m_helper :: bool
  m_killerMoves :: "KillerMoveEntries list"
  depth :: su8

definition Searcher_new :: "'g \<Rightarrow> bool \<Rightarrow> 'g Searcher" where
  "Searcher_new g helper =
     \<lparr>m_urbg = g, m_helper = helper,
      m_killerMoves =
        replicate MAX_DEPTH \<lparr>killerMoves = replicate MAX_KILLER_MOVES Move_null, index = 0\<rparr>,
      depth = 0\<rparr>"

definition isHelper :: "'g Searcher \<Rightarrow> bool" where
  "isHelper s = m_helper s"

text \<open>
  Modelled from the spec: \<open>Node\<close> is declared in a module that is not part of the sources
  at hand. A node bundles a position, a view of the repetition map (a count for every
  position), its level from the root and its remaining depth; a node is done when its
  remaining depth is zero. The root has level 0; the child made for a move priority is
  one level deeper, on the position after the move, with the priority's recommended
  depth as its remaining depth.
\<close>

record 'p Node =
  pos :: 'p
  level :: su8
  remainingDepth :: su8
  repetitionMap :: "'p \<Rightarrow> nat"

definition isDone :: "'p Node \<Rightarrow> bool" where
  "isDone node = (remainingDepth node = 0)"

text \<open>
  What the search takes from modules that are not part of the sources at hand: the
  position and its move generator, the static evaluation, the two extreme ratings and
  the two checkmate ratings, the repetition map seen by a child node, the transposition
  table, the exchange rating of a move, the order in which \<open>getMovePriorities\<close> leaves the
  priorities (its sort and partitions compare ratings and attack sets that come from
  those modules; it returns the reordered priorities and the offset at which the tail of
  likely bad moves starts), the floating-point reduction of \<open>trim\<close>, the shuffle of the
  random generator, and the values that the successive loads of the shared
  \<open>stopRequested\<close> flag return.
\<close>

record ('p, 'tt, 'g) Env =
  legalMoves :: "'p \<Rightarrow> Move list"
  isCheckmate :: "'p \<Rightarrow> bool"
  applyMove :: "'p \<Rightarrow> Move \<Rightarrow> 'p"
  isWhite :: "'p \<Rightarrow> bool"
  getRating :: "'p \<Rightarrow> Rating"
  worstPossibleRating :: "bool \<Rightarrow> Rating"
  checkmatedRating :: "bool \<Rightarrow> Rating"
  childRepetitionMap :: "('p \<Rightarrow> nat) \<Rightarrow> 'p \<Rightarrow> ('p \<Rightarrow> nat)"
  getPositionEntry :: "'tt \<Rightarrow> 'p \<Rightarrow> su8 \<Rightarrow> PositionEntry option"
  storePositionEntry :: "'tt \<Rightarrow> 'p \<Rightarrow> PositionEntry \<Rightarrow> 'tt"
  calcExchangeRating :: "'p \<Rightarrow> Move \<Rightarrow> Rating"
  orderMoves :: "'p \<Rightarrow> Move \<Rightarrow> Move list \<Rightarrow> MovePriority list \<Rightarrow> MovePriority list \<times> nat"
  lmrReduction :: "nat \<Rightarrow> nat \<Rightarrow> su8"
  shuffle :: "'g \<Rightarrow> MovePriority list \<Rightarrow> MovePriority list \<times> 'g"
  stopRequested :: "nat \<Rightarrow> bool"

text \<open>The state a worker's search runs on: the worker itself, the shared transposition
  table, and the number of loads of the stop flag made so far.\<close>

record ('tt, 'g) SearchState =
  searcher :: "'g Searcher"
  table :: 'tt
  loads :: nat

definition loadStop ::
  "('p, 'tt, 'g) Env \<Rightarrow> ('tt, 'g) SearchState \<Rightarrow> bool \<times> ('tt, 'g) SearchState" where
  "loadStop env st = (stopRequested env (loads st), st\<lparr>loads := Suc (loads st)\<rparr>)"

definition rootNode :: "'p \<Rightarrow> su8 \<Rightarrow> ('p \<Rightarrow> nat) \<Rightarrow> 'p Node" where
  "rootNode p d rm = \<lparr>pos = p, level = 0, remainingDepth = d, repetitionMap = rm\<rparr>"

definition childNode ::
  "('p, 'tt, 'g) Env \<Rightarrow> 'p Node \<Rightarrow> MovePriority \<Rightarrow> error + 'p Node" where
  "childNode env node mp =
     (case su8_add (level node) 1 of
        Inl e \<Rightarrow> Inl e
      | Inr l \<Rightarrow>
          let p = applyMove env (pos node) (m_move mp) in
          Inr \<lparr>pos = p, level = l, remainingDepth = m_recommendedDepth mp,
               repetitionMap = childRepetitionMap env (repetitionMap node) p\<rparr>)"

subsection \<open>Move ordering\<close>

fun buildPriorities ::
  "('p, 'tt, 'g) Env \<Rightarrow> 'p \<Rightarrow> su8 \<Rightarrow> Move list \<Rightarrow> error + MovePriority list" where
  "buildPriorities env p d [] = Inr []"
| "buildPriorities env p d (mv # mvs) =
     (case MovePriority_of_parent mv (calcExchangeRating env p mv) d of
        Inl e \<Rightarrow> Inl e
      | Inr mp \<Rightarrow>
          (case buildPriorities env p d mvs of
             Inl e \<Rightarrow> Inl e
           | Inr mps \<Rightarrow> Inr (mp # mps)))"

text \<open>The loop that trims the likely bad moves: the priority at position \<open>k\<close> of the
  whole vector is trimmed with the byte \<open>k\<close>.\<close>

fun trimTail :: "(nat \<Rightarrow> nat \<Rightarrow> su8) \<Rightarrow> nat \<Rightarrow> MovePriority list \<Rightarrow> error + MovePriority list" where
  "trimTail lmr k [] = Inr []"
| "trimTail lmr k (mp # mps) =
     (case trim lmr mp (of_nat k) of
        Inl e \<Rightarrow> Inl e
      | Inr mp' \<Rightarrow>
          (case trimTail lmr (Suc k) mps of
             Inl e \<Rightarrow> Inl e
           | Inr mps' \<Rightarrow> Inr (mp' # mps')))"

definition getMovePriorities ::
  "('p, 'tt, 'g) Env \<Rightarrow> 'p Node \<Rightarrow> Move \<Rightarrow> Move list \<Rightarrow> error + MovePriority list" where
  "getMovePriorities env node pvMove killers =
     (if \<not> 0 < remainingDepth node then Inl AssertionFailed
      else (case buildPriorities env (pos node) (remainingDepth node)
                   (legalMoves env (pos node)) of
              Inl e \<Rightarrow> Inl e
            | Inr built \<Rightarrow>
                let (priorities, baseOffset) = orderMoves env (pos node) pvMove killers built in
                (case su8_sub (remainingDepth node) 1 of
                   Inl e \<Rightarrow> Inl e
                 | Inr d1 \<Rightarrow>
                     (case (if d1 \<noteq> 0
                            then trimTail (lmrReduction env) baseOffset (drop baseOffset priorities)
                            else Inr (drop baseOffset priorities)) of
                        Inl e \<Rightarrow> Inl e
                      | Inr tail \<Rightarrow>
                          if take baseOffset priorities @ tail = [] then Inl AssertionFailed
                          else Inr (take baseOffset priorities @ tail)))))"

subsection \<open>The recursive search\<close>

text \<open>What the consultation of the transposition table leaves a node with: a result to
  return at once, or a principal-variation move and a window to go on with.\<close>

datatype TableOutcome = Cutoff MoveRating | Proceed Move AlphaBeta

definition wouldMakeRepetition ::
  "('p, 'tt, 'g) Env \<Rightarrow> 'p \<Rightarrow> Move \<Rightarrow> ('p \<Rightarrow> nat) \<Rightarrow> bool" where
  "wouldMakeRepetition env p pvMove rm =
     (let child = applyMove env p pvMove;
          repetitionCount = rm child + 1
      in 2 \<le> repetitionCount)"

definition useEntry ::
  "('p, 'tt, 'g) Env \<Rightarrow> 'p Node \<Rightarrow> AlphaBeta \<Rightarrow> PositionEntry \<Rightarrow> TableOutcome" where
  "useEntry env node alphaBeta entry =
     (if \<not> wouldMakeRepetition env (pos node) (bestMove entry) (repetitionMap node)
         \<and> remainingDepth node \<le> entryDepth entry
      then (case bound entry of
              InWindow \<Rightarrow> Cutoff (MoveRating3 (bestMove entry) (entryRating entry) False)
            | LowerBound \<Rightarrow>
                if m_beta alphaBeta \<le> entryRating entry
                then Cutoff (MoveRating3 (bestMove entry) (entryRating entry) False)
                else Proceed (bestMove entry) (updateAlpha alphaBeta (entryRating entry))
            | UpperBound \<Rightarrow>
                if entryRating entry \<le> m_alpha alphaBeta
                then Cutoff (MoveRating3 (bestMove entry) (entryRating entry) False)
                else Proceed (bestMove entry) (updateBeta alphaBeta (entryRating entry)))
      else Proceed (bestMove entry) alphaBeta)"

definition consultTable ::
  "('p, 'tt, 'g) Env \<Rightarrow> 'p Node \<Rightarrow> AlphaBeta \<Rightarrow> 'tt \<Rightarrow> TableOutcome" where
  "consultTable env node alphaBeta tt =
     (case getPositionEntry env tt (pos node) (remainingDepth node) of
        None \<Rightarrow> Proceed Move_null alphaBeta
      | Some entry \<Rightarrow> useEntry env node alphaBeta entry)"

text \<open>The local variables of the loop over the children in \<open>bestChildPosition\<close>.\<close>

record ChildLoop =
  alphaBeta :: AlphaBeta
  bestRating :: MoveRating
  loopBound :: Bound
  didNotPrune :: bool

definition addKillerMove :: "nat \<Rightarrow> Move \<Rightarrow> 'g Searcher \<Rightarrow> 'g Searcher" where
  "addKillerMove l mv s =
     (let k = m_killerMoves s ! l;
          k' = \<lparr>killerMoves = (killerMoves k)[index k := mv],
                index = (if index k + 1 = MAX_KILLER_MOVES then 0 else index k + 1)\<rparr>
      in s\<lparr>m_killerMoves := (m_killerMoves s)[l := k']\<rparr>)"

definition betterChild :: "bool \<Rightarrow> MoveRating \<Rightarrow> MoveRating \<Rightarrow> Move \<Rightarrow> MoveRating" where
  "betterChild maximizing best childRating mv =
     (if maximizing
      then (if rating best < rating childRating then childRating\<lparr>move := mv\<rparr> else best)
      else (if rating childRating < rating best then childRating\<lparr>move := mv\<rparr> else best))"

text \<open>The end of \<open>bestChildPosition\<close>: the bound of a search that did not prune, the
  store in the transposition table, and the result with its flag cleared.\<close>

definition finishNode ::
  "('p, 'tt, 'g) Env \<Rightarrow> bool \<Rightarrow> 'p Node \<Rightarrow> AlphaBeta \<Rightarrow> ChildLoop \<Rightarrow>
     ('tt, 'g) SearchState \<Rightarrow> MoveRating \<times> ('tt, 'g) SearchState" where
  "finishNode env maximizing node originalAlphaBeta lp st =
     (let best = bestRating lp;
          bnd = (if didNotPrune lp
                 then (if maximizing
                       then (if rating best \<le> m_alpha originalAlphaBeta
                             then UpperBound else loopBound lp)
                       else (if m_beta originalAlphaBeta \<le> rating best
                             then LowerBound else loopBound lp))
                 else loopBound lp);
          st' = (if \<not> invalidTTEntry best
                 then st\<lparr>table := storePositionEntry env (table st) (pos node)
                        \<lparr>bestMove = move best, entryRating = rating best,
                         entryDepth = remainingDepth node, bound = bnd\<rparr>\<rparr>
                 else st)
      in (best\<lparr>invalidTTEntry := False\<rparr>, st'))"

text \<open>
  \<open>tryShortCircuit\<close>, \<open>bestChildPosition\<close> and the loop over the children call one
  another. The first argument after the environment is a budget of nested calls, there
  only to make the recursion well founded: each call of \<open>bestChildPosition\<close> uses one.
\<close>

fun tryShortCircuit ::
    "('p, 'tt, 'g) Env \<Rightarrow> nat \<Rightarrow> bool \<Rightarrow> 'p Node \<Rightarrow> AlphaBeta \<Rightarrow> ('tt, 'g) SearchState \<Rightarrow>
       error + MoveRating \<times> ('tt, 'g) SearchState"
  and bestChildPosition ::
    "('p, 'tt, 'g) Env \<Rightarrow> nat \<Rightarrow> bool \<Rightarrow> 'p Node \<Rightarrow> Move \<Rightarrow> AlphaBeta \<Rightarrow>
       ('tt, 'g) SearchState \<Rightarrow> error + MoveRating \<times> ('tt, 'g) SearchState"
  and searchChildren ::
    "('p, 'tt, 'g) Env \<Rightarrow> nat \<Rightarrow> bool \<Rightarrow> 'p Node \<Rightarrow> MovePriority list \<Rightarrow> ChildLoop \<Rightarrow>
       ('tt, 'g) SearchState \<Rightarrow> error + ChildLoop \<times> ('tt, 'g) SearchState"
where
  "tryShortCircuit env fuel maximizing node ab st =
     (if legalMoves env (pos node) = []
      then Inr (if isCheckmate env (pos node)
                then MoveRating_default\<lparr>rating := checkmatedRating env maximizing,
                                        checkmateLevel := Some (level node)\<rparr>
                else MoveRating_default, st)
      else if 3 \<le> repetitionMap node (pos node)
      then Inr (MoveRating3 Move_null 0 True, st)
      else
        let (stop1, st1) = loadStop env st in
        if stop1 then Inr (MoveRating3 Move_null (getRating env (pos node)) False, st1)
        else
          let canUseEntry = \<not> (m_helper (searcher st1) \<and> level node = 0);
              (stop2, st2) = loadStop env st1
          in (case (if \<not> stop2 \<and> canUseEntry then consultTable env node ab (table st2)
                    else Proceed Move_null ab) of
                Cutoff mr \<Rightarrow> Inr (mr, st2)
              | Proceed pvMove ab' \<Rightarrow>
                  if isDone node
                  then Inr (MoveRating3 Move_null (getRating env (pos node)) False, st2)
                  else (case fuel of
                          0 \<Rightarrow> Inl OutOfFuel
                        | Suc n \<Rightarrow> bestChildPosition env n maximizing node pvMove ab' st2)))"
| "bestChildPosition env fuel maximizing node pvMove ab st =
     (if \<not> unat (level node) < MAX_DEPTH then Inl OutOfBounds
      else
        let killers = m_killerMoves (searcher st) ! unat (level node) in
        (case getMovePriorities env node pvMove (killerMoves killers) of
           Inl e \<Rightarrow> Inl e
         | Inr movePriorities \<Rightarrow>
             let (shuffled, st1) =
                   (if m_helper (searcher st) \<and> level node < RANDOMIZATION_CUTOFF
                    then (let (ps, g) = shuffle env (m_urbg (searcher st)) movePriorities
                          in (ps, st\<lparr>searcher := (searcher st)\<lparr>m_urbg := g\<rparr>\<rparr>))
                    else (movePriorities, st))
             in (case searchChildren env fuel maximizing node shuffled
                        \<lparr>alphaBeta = ab,
                         bestRating = MoveRating3 Move_null (worstPossibleRating env maximizing) False,
                         loopBound = InWindow, didNotPrune = True\<rparr> st1 of
                   Inl e \<Rightarrow> Inl e
                 | Inr (lp, st2) \<Rightarrow> Inr (finishNode env maximizing node ab lp st2))))"
| "searchChildren env fuel maximizing node [] lp st = Inr (lp, st)"
| "searchChildren env fuel maximizing node (movePriority # rest) lp st =
     (case childNode env node movePriority of
        Inl e \<Rightarrow> Inl e
      | Inr child \<Rightarrow>
          (case tryShortCircuit env fuel (\<not> maximizing) child (alphaBeta lp) st of
             Inl e \<Rightarrow> Inl e
           | Inr (firstRating, st1) \<Rightarrow>
               (case (if m_trimmed movePriority \<and>
                         (if maximizing then m_alpha (alphaBeta lp) \<le> rating firstRating
                          else rating firstRating \<le> m_beta (alphaBeta lp))
                      then (case su8_sub (remainingDepth node) 1 of
                              Inl e \<Rightarrow> Inl e
                            | Inr d \<Rightarrow>
                                (case childNode env node
                                        (MovePriority_full (m_move movePriority) d) of
                                   Inl e \<Rightarrow> Inl e
                                 | Inr newChild \<Rightarrow>
                                     tryShortCircuit env fuel (\<not> maximizing) newChild
                                       (alphaBeta lp) st1))
                      else Inr (firstRating, st1)) of
                  Inl e \<Rightarrow> Inl e
                | Inr (childRating, st2) \<Rightarrow>
                    let best = betterChild maximizing (bestRating lp) childRating
                                 (m_move movePriority);
                        ab' = update maximizing (alphaBeta lp) (rating best)
                    in if canPrune ab'
                       then Inr (\<lparr>alphaBeta = ab', bestRating = best,
                                  loopBound = (if maximizing then LowerBound else UpperBound),
                                  didNotPrune = False\<rparr>,
                                 if capturedPiece (m_move movePriority) = Piece_None
                                 then st2\<lparr>searcher := addKillerMove (unat (level node))
                                                        (m_move movePriority) (searcher st2)\<rparr>
                                 else st2)
                       else if rating childRating = checkmatedRating env (\<not> maximizing)
                       then Inr (lp\<lparr>alphaBeta := ab', bestRating := best\<rparr>, st2)
                       else searchChildren env fuel maximizing node rest
                              (lp\<lparr>alphaBeta := ab', bestRating := best\<rparr>) st2)))"

declare tryShortCircuit.simps [simp del]

declare bestChildPosition.simps [simp del]

declare searchChildren.simps [simp del]

text \<open>The last two steps of \<open>tryShortCircuit\<close>: the static rating at a node that is
  done, the search of the children otherwise.\<close>

definition leafOrChildren ::
  "('p, 'tt, 'g) Env \<Rightarrow> nat \<Rightarrow> bool \<Rightarrow> 'p Node \<Rightarrow> Move \<Rightarrow> AlphaBeta \<Rightarrow> ('tt, 'g) SearchState \<Rightarrow>
     error + MoveRating \<times> ('tt, 'g) SearchState" where
  "leafOrChildren env fuel maximizing node pvMove ab st =
     (if isDone node
      then Inr (MoveRating3 Move_null (getRating env (pos node)) False, st)
      else (case fuel of
              0 \<Rightarrow> Inl OutOfFuel
            | Suc n \<Rightarrow> bestChildPosition env n maximizing node pvMove ab st))"

text \<open>The parts of \<open>bestChildPosition\<close> around its loop: the priorities it searches (the
  killer moves of the level, the ordering, the shuffle of a helper near the root) with
  the state the shuffle leaves, the values its loop variables start with, and the bound
  it stores.\<close>

definition orderedChildren ::
  "('p, 'tt, 'g) Env \<Rightarrow> 'p Node \<Rightarrow> Move \<Rightarrow> ('tt, 'g) SearchState \<Rightarrow>
     error + MovePriority list \<times> ('tt, 'g) SearchState" where
  "orderedChildren env node pvMove st =
     (if \<not> unat (level node) < MAX_DEPTH then Inl OutOfBounds
      else
        let killers = m_killerMoves (searcher st) ! unat (level node) in
        (case getMovePriorities env node pvMove (killerMoves killers) of
           Inl e \<Rightarrow> Inl e
         | Inr movePriorities \<Rightarrow>
             Inr (if m_helper (searcher st) \<and> level node < RANDOMIZATION_CUTOFF
                  then (let (ps, g) = shuffle env (m_urbg (searcher st)) movePriorities
                        in (ps, st\<lparr>searcher := (searcher st)\<lparr>m_urbg := g\<rparr>\<rparr>))
                  else (movePriorities, st))))"

definition ChildLoop_start :: "('p, 'tt, 'g) Env \<Rightarrow> bool \<Rightarrow> AlphaBeta \<Rightarrow> ChildLoop" where
  "ChildLoop_start env maximizing ab =
     \<lparr>alphaBeta = ab,
      bestRating = MoveRating3 Move_null (worstPossibleRating env maximizing) False,
      loopBound = InWindow, didNotPrune = True\<rparr>"

definition storedBound :: "bool \<Rightarrow> AlphaBeta \<Rightarrow> ChildLoop \<Rightarrow> Bound" where
  "storedBound maximizing originalAlphaBeta lp =
     (if didNotPrune lp
      then (if maximizing
            then (if rating (bestRating lp) \<le> m_alpha originalAlphaBeta
                  then UpperBound else loopBound lp)
            else (if m_beta originalAlphaBeta \<le> rating (bestRating lp)
                  then LowerBound else loopBound lp))
      else loopBound lp)"

definition startAlphaBetaSearch ::
  "('p, 'tt, 'g) Env \<Rightarrow> nat \<Rightarrow> bool \<Rightarrow> 'p \<Rightarrow> su8 \<Rightarrow> ('p \<Rightarrow> nat) \<Rightarrow> ('tt, 'g) SearchState \<Rightarrow>
     error + MoveRating \<times> ('tt, 'g) SearchState" where
  "startAlphaBetaSearch env fuel maximizing p d rm st =
     tryShortCircuit env fuel maximizing (rootNode p d rm)
       \<lparr>m_alpha = worstPossibleRating env True, m_beta = worstPossibleRating env False\<rparr> st"

text \<open>The warm-up iterations of iterative deepening, whose results are discarded.\<close>

fun warmUp ::
  "('p, 'tt, 'g) Env \<Rightarrow> nat \<Rightarrow> bool \<Rightarrow> 'p \<Rightarrow> ('p \<Rightarrow> nat) \<Rightarrow> su8 list \<Rightarrow> ('tt, 'g) SearchState \<Rightarrow>
     error + ('tt, 'g) SearchState" where
  "warmUp env fuel maximizing p rm [] st = Inr st"
| "warmUp env fuel maximizing p rm (iterDepth # ds) st =
     (case startAlphaBetaSearch env fuel maximizing p iterDepth rm st of
        Inl e \<Rightarrow> Inl e
      | Inr (mr, st') \<Rightarrow> warmUp env fuel maximizing p rm ds st')"

definition iterativeDeepening ::
  "('p, 'tt, 'g) Env \<Rightarrow> nat \<Rightarrow> bool \<Rightarrow> 'p \<Rightarrow> ('p \<Rightarrow> nat) \<Rightarrow> ('tt, 'g) SearchState \<Rightarrow>
     error + MoveRating \<times> ('tt, 'g) SearchState" where
  "iterativeDeepening env fuel maximizing p rm st =
     (case warmUp env fuel maximizing p rm
             (map of_nat [1 ..< unat (depth (searcher st))]) st of
        Inl e \<Rightarrow> Inl e
      | Inr st' \<Rightarrow>
          startAlphaBetaSearch env fuel maximizing p (depth (searcher st')) rm st')"

definition search ::
  "('p, 'tt, 'g) Env \<Rightarrow> nat \<Rightarrow> 'p \<Rightarrow> ('p \<Rightarrow> nat) \<Rightarrow> ('tt, 'g) SearchState \<Rightarrow>
     error + MoveRating \<times> ('tt, 'g) SearchState" where
  "search env fuel p rm st =
     (if isWhite env p then iterativeDeepening env fuel True p rm st
      else iterativeDeepening env fuel False p rm st)"

section \<open>The coordinator\<close>

text \<open>The body of the loop of \<open>assignDepths\<close>, for the worker at position \<open>i\<close> of the
  worker list; the index is cast to a byte before its parity is taken.\<close>

definition assignDepth :: "su8 \<Rightarrow> nat \<Rightarrow> 'g Searcher \<Rightarrow> error + 'g Searcher" where
  "assignDepth maxDepth i s =
     (if \<not> isHelper s then Inr (s\<lparr>depth := maxDepth\<rparr>)
      else (case su8_mod (of_nat i) 2 of
              Inl e \<Rightarrow> Inl e
            | Inr r \<Rightarrow>
                let d = (if r = 0 then 1 else 0) in
                if maxDepth = 1 then Inr (s\<lparr>depth := maxDepth\<rparr>)
                else (case su8_sub maxDepth d of
                        Inl e \<Rightarrow> Inl e
                      | Inr dep \<Rightarrow> Inr (s\<lparr>depth := dep\<rparr>))))"

fun assignDepthsFrom :: "su8 \<Rightarrow> nat \<Rightarrow> 'g Searcher list \<Rightarrow> error + 'g Searcher list" where
  "assignDepthsFrom maxDepth i [] = Inr []"
| "assignDepthsFrom maxDepth i (s # ss) =
     (case assignDepth maxDepth i s of
        Inl e \<Rightarrow> Inl e
      | Inr s' \<Rightarrow>
          (case assignDepthsFrom maxDepth (Suc i) ss of
             Inl e \<Rightarrow> Inl e
           | Inr ss' \<Rightarrow> Inr (s' # ss')))"

definition assignDepths :: "su8 \<Rightarrow> 'g Searcher list \<Rightarrow> error + 'g Searcher list" where
  "assignDepths maxDepth searchers =
     (if \<not> 1 \<le> maxDepth then Inl AssertionFailed
      else assignDepthsFrom maxDepth 0 searchers)"

subsection \<open>Voting\<close>

text \<open>
  The vote computes with ratings in the machine arithmetic of \<open>Rating\<close>, a type declared
  outside the sources at hand (floating point, or fixed point). Every result of an
  arithmetic operation, of \<open>std::pow\<close> and of a literal is rounded to the machine type:
  it passes through the parameter \<open>rnd\<close>, at the place where the source computes it.
  Comparisons are exact. Overflow to infinity and NaN are not part of the model. What
  the vote needs of a rounding is what rounding to nearest and truncation give: it is
  monotone, it leaves machine numbers as they are, and 0 and 1 are machine numbers. The
  identity is the rounding of exact arithmetic.
\<close>

definition rounding :: "(real \<Rightarrow> real) \<Rightarrow> bool" where
  "rounding rnd = (mono rnd \<and> (\<forall>x. rnd (rnd x) = rnd x) \<and> rnd 0 = 0 \<and> rnd 1 = 1)"

definition getVotingWeight ::
  "(real \<Rightarrow> real) \<Rightarrow> 'g Searcher \<Rightarrow> MoveRating \<Rightarrow> Rating \<Rightarrow> Rating \<Rightarrow> error + Rating" where
  "getVotingWeight rnd s moveRating worstScore maxScoreDiff =
     (if \<not> 0 \<le> maxScoreDiff then Inl AssertionFailed
      else
        let ret0 = rnd (1 + rnd (2 ^ unat (depth s)));
            ret1 = (if maxScoreDiff \<noteq> 0
                    then rnd (ret0 * rnd (rnd (rnd 1.2 * rnd (rating moveRating - worstScore))
                                            / maxScoreDiff))
                    else ret0)
        in (case checkmateLevel moveRating of
              None \<Rightarrow> Inr ret1
            | Some l \<Rightarrow>
                if l = 0 then Inl DivisionByZero
                else Inr (rnd (ret1 + rnd (ret1 / real (unat l))))))"

text \<open>\<open>std::ranges::min_element\<close> with a projection returns the first element whose key
  is least; the largest key of \<open>std::ranges::minmax_element\<close> is that of the last
  greatest element. Both read past the end of an empty range.\<close>

fun min_element_from :: "('a \<Rightarrow> 'k::linorder) \<Rightarrow> 'a \<Rightarrow> 'a list \<Rightarrow> 'a" where
  "min_element_from key best [] = best"
| "min_element_from key best (x # xs) =
     min_element_from key (if key x < key best then x else best) xs"

definition min_element :: "('a \<Rightarrow> 'k::linorder) \<Rightarrow> 'a list \<Rightarrow> error + 'a" where
  "min_element key xs =
     (case xs of [] \<Rightarrow> Inl OutOfBounds | x # rest \<Rightarrow> Inr (min_element_from key x rest))"

fun max_element_from :: "('a \<Rightarrow> 'k::linorder) \<Rightarrow> 'a \<Rightarrow> 'a list \<Rightarrow> 'a" where
  "max_element_from key best [] = best"
| "max_element_from key best (x # xs) =
     max_element_from key (if key x < key best then best else x) xs"

definition max_element :: "('a \<Rightarrow> 'k::linorder) \<Rightarrow> 'a list \<Rightarrow> error + 'a" where
  "max_element key xs =
     (case xs of [] \<Rightarrow> Inl OutOfBounds | x # rest \<Rightarrow> Inr (max_element_from key x rest))"

definition checkmateKey :: "MoveRating \<Rightarrow> su8" where
  "checkmateKey mr = (case checkmateLevel mr of None \<Rightarrow> 255 | Some l \<Rightarrow> l)"

text \<open>The local variables of the voting loop: the accumulated weight of every move (a
  hash map whose missing keys read as 0), the best move and its weight so far. The
  field \<open>weighed\<close> is not in the source: it records, in order, every \<open>MoveRating\<close> that
  has been passed to \<open>getVotingWeight\<close>.\<close>

record Votes =
  moveRatings :: "Move \<Rightarrow> Rating"
  voteBestMove :: Move
  bestVoteRating :: Rating
  weighed :: "MoveRating list"

definition Votes_init :: Votes where
  "Votes_init = \<lparr>moveRatings = (\<lambda>m. 0), voteBestMove = Move_null, bestVoteRating = 0,
                 weighed = []\<rparr>"

fun voteLoop ::
  "(real \<Rightarrow> real) \<Rightarrow> Rating \<Rightarrow> Rating \<Rightarrow> (MoveRating \<times> 'g Searcher) list \<Rightarrow> Votes \<Rightarrow>
     error + Votes" where
  "voteLoop rnd worstScore maxScoreDiff [] vs = Inr vs"
| "voteLoop rnd worstScore maxScoreDiff ((moveRating, s) # rest) vs =
     (case getVotingWeight rnd s moveRating worstScore maxScoreDiff of
        Inl e \<Rightarrow> Inl e
      | Inr w \<Rightarrow>
          let voteRating = rnd (moveRatings vs (move moveRating) + w);
              vs1 = vs\<lparr>moveRatings := (moveRatings vs)(move moveRating := voteRating),
                       weighed := weighed vs @ [moveRating]\<rparr>
          in voteLoop rnd worstScore maxScoreDiff rest
               (if bestVoteRating vs < voteRating
                then vs1\<lparr>bestVoteRating := voteRating, voteBestMove := move moveRating\<rparr>
                else vs1))"

definition anyPathsLeadToCheckmate :: "MoveRating list \<Rightarrow> bool" where
  "anyPathsLeadToCheckmate moves = list_ex (\<lambda>m. checkmateLevel m \<noteq> None) moves"

definition countVotes ::
  "(real \<Rightarrow> real) \<Rightarrow> 'g Searcher list \<Rightarrow> MoveRating list \<Rightarrow> error + Votes" where
  "countVotes rnd searchers moves =
     (if anyPathsLeadToCheckmate moves
      then (case min_element checkmateKey moves of
              Inl e \<Rightarrow> Inl e
            | Inr quickestCheckmate \<Rightarrow> Inr (Votes_init\<lparr>voteBestMove := move quickestCheckmate\<rparr>))
      else (case min_element rating moves of
              Inl e \<Rightarrow> Inl e
            | Inr worst \<Rightarrow>
                (case max_element rating moves of
                   Inl e \<Rightarrow> Inl e
                 | Inr best \<Rightarrow>
                     voteLoop rnd (rating worst) (rnd (rating best - rating worst))
                       (zip moves searchers) Votes_init)))"

definition voteForBestMove ::
  "(real \<Rightarrow> real) \<Rightarrow> 'g Searcher list \<Rightarrow> MoveRating list \<Rightarrow> error + Move" where
  "voteForBestMove rnd searchers moves =
     (case countVotes rnd searchers moves of
        Inl e \<Rightarrow> Inl e
      | Inr vs \<Rightarrow> Inr (voteBestMove vs))"

text \<open>
  The vote as the specification words it: the weight of one vote whose \<open>MoveRating\<close>
  has no checkmate level, and the weight that a move has accumulated after a list of
  votes, each vote for the move added to its sum in the order of the list (and the sum
  rounded, as every sum is).
\<close>

definition plainWeight ::
  "(real \<Rightarrow> real) \<Rightarrow> 'g Searcher \<Rightarrow> MoveRating \<Rightarrow> Rating \<Rightarrow> Rating \<Rightarrow> Rating" where
  "plainWeight rnd s mr worstScore maxScoreDiff =
     (if maxScoreDiff \<noteq> 0
      then rnd (rnd (1 + rnd (2 ^ unat (depth s)))
                  * rnd (rnd (rnd 1.2 * rnd (rating mr - worstScore)) / maxScoreDiff))
      else rnd (1 + rnd (2 ^ unat (depth s))))"

fun accumulatedFrom ::
  "(real \<Rightarrow> real) \<Rightarrow> Rating \<Rightarrow> Rating \<Rightarrow> Rating \<Rightarrow> (MoveRating \<times> 'g Searcher) list \<Rightarrow> Move \<Rightarrow>
     Rating" where
  "accumulatedFrom rnd worstScore maxScoreDiff sofar [] m = sofar"
| "accumulatedFrom rnd worstScore maxScoreDiff sofar ((mr, s) # rest) m =
     accumulatedFrom rnd worstScore maxScoreDiff
       (if move mr = m then rnd (sofar + plainWeight rnd s mr worstScore maxScoreDiff) else sofar)
       rest m"

definition accumulated ::
  "(real \<Rightarrow> real) \<Rightarrow> Rating \<Rightarrow> Rating \<Rightarrow> (MoveRating \<times> 'g Searcher) list \<Rightarrow> Move \<Rightarrow> Rating" where
  "accumulated rnd worstScore maxScoreDiff votes m =
     accumulatedFrom rnd worstScore maxScoreDiff 0 votes m"

text \<open>The invariant of the voting loop after the votes \<open>pre\<close>.\<close>

definition votesInv ::
  "(real \<Rightarrow> real) \<Rightarrow> Rating \<Rightarrow> Rating \<Rightarrow> (MoveRating \<times> 'g Searcher) list \<Rightarrow> Votes \<Rightarrow> bool" where
  "votesInv rnd W D pre vs =
     ((\<forall>m. moveRatings vs m = accumulated rnd W D pre m) \<and>
      weighed vs = map fst pre \<and>
      0 \<le> bestVoteRating vs \<and>
      rnd (bestVoteRating vs) = bestVoteRating vs \<and>
      (\<forall>m. accumulated rnd W D pre m \<le> bestVoteRating vs) \<and>
      (bestVoteRating vs = 0 \<longrightarrow> voteBestMove vs = Move_null) \<and>
      (0 < bestVoteRating vs \<longrightarrow>
         voteBestMove vs \<in> move ` fst ` set pre \<and>
         accumulated rnd W D pre (voteBestMove vs) = bestVoteRating vs \<and>
         (\<exists>k \<le> length pre.
            accumulated rnd W D (take k pre) (voteBestMove vs) = bestVoteRating vs \<and>
            (\<forall>m. m \<noteq> voteBestMove vs \<longrightarrow>
                 accumulated rnd W D (take k pre) m < bestVoteRating vs))))"

text \<open>What \<open>findBestMoveImpl\<close> does with the results of the workers once all of them have
  returned.\<close>

definition hasNullMove :: "MoveRating list \<Rightarrow> bool" where
  "hasNullMove moveCandidates = list_ex (\<lambda>mr. move mr = Move_null) moveCandidates"

definition chooseMove ::
  "(real \<Rightarrow> real) \<Rightarrow> 'g Searcher list \<Rightarrow> MoveRating list \<Rightarrow> error + Move option" where
  "chooseMove rnd searchers moveCandidates =
     (if moveCandidates = [] then Inl AssertionFailed
      else if hasNullMove moveCandidates then Inr None
      else (case voteForBestMove rnd searchers moveCandidates of
              Inl e \<Rightarrow> Inl e
            | Inr mv \<Rightarrow> Inr (Some mv)))"

section \<open>The search thread\<close>

text \<open>
  The state that the search thread shares with the thread that reads the commands, all
  of it under one mutex: the game state and the two flags. The positions, their \<open>move\<close>
  operation and the text of a move come from modules that are not part of the sources at
  hand and are parameters.
\<close>

record 'p GameState =
  gs_pos :: 'p
  gs_repetitionMap :: "'p \<Rightarrow> nat"
  gs_depth :: su8

record 'p SearchThread =
  m_state :: "'p GameState"
  m_shouldPonder :: bool
  m_calculationRequested :: bool

definition setPosition :: "'p GameState \<Rightarrow> 'p SearchThread \<Rightarrow> 'p SearchThread" where
  "setPosition state t = t\<lparr>m_shouldPonder := True, m_state := state\<rparr>"

definition go :: "su8 \<Rightarrow> 'p SearchThread \<Rightarrow> 'p SearchThread" where
  "go d t = t\<lparr>m_calculationRequested := True, m_shouldPonder := False,
              m_state := (m_state t)\<lparr>gs_depth := d\<rparr>\<rparr>"

definition stop :: "'p SearchThread \<Rightarrow> 'p SearchThread" where
  "stop t = t\<lparr>m_shouldPonder := False\<rparr>"

text \<open>One turn of the loop of \<open>run\<close> after \<open>think\<close> has returned without a stop request, in
  its two critical sections. \<open>takeSnapshot\<close> copies the game state and clears the request.
  The committed search then runs without the lock, so the commands above may change the
  shared state before \<open>afterSearch\<close> sees it: \<open>afterSearch\<close> is given the result of the
  search, the value of the stop token read after the search, and the shared state as it
  is when the lock is taken again; it returns the lines printed and the new state.\<close>

definition takeSnapshot :: "'p SearchThread \<Rightarrow> 'p GameState \<times> 'p SearchThread" where
  "takeSnapshot t = (m_state t, t\<lparr>m_calculationRequested := False\<rparr>)"

definition afterSearch ::
  "('p \<Rightarrow> Move \<Rightarrow> 'p) \<Rightarrow> (Move \<Rightarrow> string) \<Rightarrow> Move option \<Rightarrow> bool \<Rightarrow> 'p SearchThread \<Rightarrow>
     string list \<times> 'p SearchThread" where
  "afterSearch applyMv getUCIString bestMoveFound stopTokenRequested t =
     (case bestMoveFound of
        Some mv \<Rightarrow>
          if \<not> stopTokenRequested
          then ([getUCIString mv],
                if \<not> m_calculationRequested t
                then t\<lparr>m_state := (m_state t)\<lparr>gs_pos := applyMv (gs_pos (m_state t)) mv\<rparr>,
                       m_shouldPonder := True\<rparr>
                else t)
          else ([], t)
      | None \<Rightarrow> ([], t\<lparr>m_shouldPonder := False\<rparr>))"

text \<open>
  What the other thread can do to the shared state between the two critical sections: it
  calls \<open>setPosition\<close>, \<open>go\<close> and \<open>stop\<close>, each under the mutex, any number of times. A whole
  turn takes the snapshot, lets these commands through while the committed search runs,
  and ends with \<open>afterSearch\<close>; it returns the game state that was searched, the lines
  printed and the shared state it leaves. The result of the search and the value of the
  stop token are inputs.
\<close>

datatype 'p Command = SetPosition "'p GameState" | Go su8 | Stop

fun applyCommand :: "'p Command \<Rightarrow> 'p SearchThread \<Rightarrow> 'p SearchThread" where
  "applyCommand (SetPosition state) t = setPosition state t"
| "applyCommand (Go d) t = go d t"
| "applyCommand Stop t = stop t"

fun applyCommands :: "'p Command list \<Rightarrow> 'p SearchThread \<Rightarrow> 'p SearchThread" where
  "applyCommands [] t = t"
| "applyCommands (c # cs) t = applyCommands cs (applyCommand c t)"

fun isGo :: "'p Command \<Rightarrow> bool" where
  "isGo (Go d) = True"
| "isGo c = False"

definition committedTurn ::
  "('p \<Rightarrow> Move \<Rightarrow> 'p) \<Rightarrow> (Move \<Rightarrow> string) \<Rightarrow> Move option \<Rightarrow> bool \<Rightarrow> 'p Command list \<Rightarrow>
     'p SearchThread \<Rightarrow> 'p GameState \<times> string list \<times> 'p SearchThread" where
  "committedTurn applyMv getUCIString bestMoveFound stopTokenRequested commands t =
     (let (stateCopy, t1) = takeSnapshot t;
          t2 = applyCommands commands t1;
          (printed, t3) = afterSearch applyMv getUCIString bestMoveFound stopTokenRequested t2
      in (stateCopy, printed, t3))"

section \<open>A small game\<close>

text \<open>
  A concrete environment on which the search can be run: positions are numbered, every
  position has exactly one legal move, a quiet move to the next position (a line of
  forced replies), the static rating is 0 everywhere, and no position repeats. The
  transposition table keeps the last entry stored for a position. The ordering classes
  no move as likely bad, so late-move reduction stays idle. The stop flag follows the
  schedule given.
\<close>

definition quietMove :: Move where
  "quietMove = \<lparr>move_from = 0, move_to = 1, movedPiece = King,
                capturedPiece = Piece_None, promotionPiece = Piece_None\<rparr>"

definition lineEnv :: "(nat \<Rightarrow> bool) \<Rightarrow> (nat, nat \<Rightarrow> PositionEntry option, unit) Env" where
  "lineEnv stopSchedule =
     \<lparr>legalMoves = (\<lambda>p. [quietMove]), isCheckmate = (\<lambda>p. False),
      applyMove = (\<lambda>p mv. Suc p), isWhite = (\<lambda>p. even p), getRating = (\<lambda>p. 0),
      worstPossibleRating = (\<lambda>maximizing. if maximizing then - 1000000 else 1000000),
      checkmatedRating = (\<lambda>maximizing. if maximizing then - 100000 else 100000),
      childRepetitionMap = (\<lambda>rm p. rm),
      getPositionEntry = (\<lambda>tt p d. tt p),
      storePositionEntry = (\<lambda>tt p e. tt(p \<mapsto> e)),
      calcExchangeRating = (\<lambda>p mv. 0),
      orderMoves = (\<lambda>p pv killers mps. (mps, length mps)),
      lmrReduction = (\<lambda>d i. 0),
      shuffle = (\<lambda>g mps. (mps, g)),
      stopRequested = stopSchedule\<rparr>"

definition noRepetitions :: "nat \<Rightarrow> nat" where
  "noRepetitions = (\<lambda>p. 0)"

definition worker :: "bool \<Rightarrow> su8 \<Rightarrow> unit Searcher" where
  "worker helper d = (Searcher_new () helper)\<lparr>depth := d\<rparr>"

definition freshState ::
  "bool \<Rightarrow> su8 \<Rightarrow> (nat \<Rightarrow> PositionEntry option, unit) SearchState" where
  "freshState helper d = \<lparr>searcher = worker helper d, table = Map.empty, loads = 0\<rparr>"

text \<open>
  For the search along the line: the byte of a number, the node at level \<open>l\<close> of the
  search of depth \<open>d\<close> from position 0, the window the search starts with, and the tables
  in which every entry for a position \<open>p\<close> has a depth below \<open>d - p\<close> (the entries that
  searches of depth below \<open>d\<close> leave).
\<close>

definition byte :: "nat \<Rightarrow> su8" where
  "byte n = of_nat n"

definition lineNode :: "nat \<Rightarrow> nat \<Rightarrow> nat Node" where
  "lineNode l d = \<lparr>pos = l, level = byte l, remainingDepth = byte (d - l),
                   repetitionMap = noRepetitions\<rparr>"

definition shallowTable :: "nat \<Rightarrow> (nat \<Rightarrow> PositionEntry option) \<Rightarrow> bool" where
  "shallowTable d tt = (\<forall>p e. tt p = Some e \<longrightarrow> unat (entryDepth e) + p < d)"

definition fullWindow :: AlphaBeta where
  "fullWindow = \<lparr>m_alpha = - 1000000, m_beta = 1000000\<rparr>"

text \<open>A state whose table holds one entry, for position 0.\<close>

definition tableWithRoot :: "PositionEntry \<Rightarrow> bool \<Rightarrow> (nat \<Rightarrow> PositionEntry option, unit) SearchState" where
  "tableWithRoot entry helper =
     \<lparr>searcher = worker helper 1, table = [0 \<mapsto> entry], loads = 0\<rparr>"

text \<open>Two more moves.\<close>

definition moveA :: Move where
  "moveA = \<lparr>move_from = 12, move_to = 28, movedPiece = Pawn,
            capturedPiece = Piece_None, promotionPiece = Piece_None\<rparr>"

definition moveB :: Move where
  "moveB = \<lparr>move_from = 6, move_to = 21, movedPiece = Knight,
            capturedPiece = Piece_None, promotionPiece = Piece_None\<rparr>"

section \<open>Depth assignment\<close>

lemma byte_index_parity: "((of_nat i :: 8 word) mod 2 = 0) = even i"
proof -
  have "((of_nat i :: 8 word) mod 2 = 0) = (unat ((of_nat i :: 8 word) mod 2) = 0)"
    by (simp add: unat_eq_0)
  also have "\<dots> = ((i mod 256) mod 2 = 0)"
    by (simp add: unat_mod unat_of_nat)
  also have "\<dots> = even i"
    by (simp add: mod_mod_cancel even_iff_mod_2_eq_zero)
  finally show ?thesis .
qed

lemma su8_ge_1: "(1 \<le> (d::su8)) = (d \<noteq> 0)"
  by (simp add: word_le_nat_alt unat_eq_0 Suc_le_eq unat_gt_0)

lemma su8_pred_ge_1: "1 \<le> (d::su8) \<Longrightarrow> d \<noteq> 1 \<Longrightarrow> 1 \<le> d - 1"
  by (metis su8_ge_1 diff_eq_eq add_0)

lemma assignDepth_value:
  assumes "1 \<le> maxDepth"
  shows "assignDepth maxDepth i s =
     Inr (s\<lparr>depth := (if \<not> m_helper s then maxDepth
                       else if maxDepth = 1 then maxDepth
                       else if i mod 2 = 1 then maxDepth else maxDepth - 1)\<rparr>)"
  using assms
  by (auto simp: assignDepth_def isHelper_def su8_mod_def su8_sub_def byte_index_parity
      even_iff_mod_2_eq_zero)

lemma assignDepthsFrom_value:
  assumes "1 \<le> maxDepth"
  shows "\<exists>ss'. assignDepthsFrom maxDepth k ss = Inr ss' \<and> length ss' = length ss \<and>
     (\<forall>i < length ss. ss' ! i = (ss ! i)\<lparr>depth :=
         (if \<not> m_helper (ss ! i) then maxDepth
          else if maxDepth = 1 then maxDepth
          else if (k + i) mod 2 = 1 then maxDepth else maxDepth - 1)\<rparr>)"
proof (induction ss arbitrary: k)
  case Nil
  show ?case by simp
next
  case (Cons s ss)
  from Cons.IH [of "Suc k"] obtain ss' where
    t: "assignDepthsFrom maxDepth (Suc k) ss = Inr ss'" and l: "length ss' = length ss"
    and e: "\<forall>i < length ss. ss' ! i = (ss ! i)\<lparr>depth :=
         (if \<not> m_helper (ss ! i) then maxDepth
          else if maxDepth = 1 then maxDepth
          else if (Suc k + i) mod 2 = 1 then maxDepth else maxDepth - 1)\<rparr>"
    by blast
  let ?s' = "s\<lparr>depth := (if \<not> m_helper s then maxDepth
                       else if maxDepth = 1 then maxDepth
                       else if k mod 2 = 1 then maxDepth else maxDepth - 1)\<rparr>"
  show ?case
  proof (intro exI conjI allI impI)
    show "assignDepthsFrom maxDepth k (s # ss) = Inr (?s' # ss')"
      by (simp add: assignDepth_value [OF assms] t)
    show "length (?s' # ss') = length (s # ss)"
      by (simp add: l)
  next
    fix i assume "i < length (s # ss)"
    then show "(?s' # ss') ! i =
      ((s # ss) ! i)\<lparr>depth :=
         (if \<not> m_helper ((s # ss) ! i) then maxDepth
          else if maxDepth = 1 then maxDepth
          else if (k + i) mod 2 = 1 then maxDepth else maxDepth - 1)\<rparr>"
      using e by (cases i) auto
  qed
qed

text \<open>
  C6. For every \<open>maxDepth \<ge> 1\<close>, \<open>assignDepths\<close> succeeds and changes depths only: the
  worker that is not a helper (the main worker) gets \<open>maxDepth\<close>; the helper at position
  \<open>i\<close> of the worker list gets \<open>maxDepth\<close> when \<open>maxDepth = 1\<close>, and otherwise
  \<open>maxDepth\<close> when \<open>i mod 2 = 1\<close> and \<open>maxDepth - 1\<close> when \<open>i mod 2 = 0\<close>; every
  worker's depth is at least 1.
\<close>

theorem assignDepths_staggered:
  assumes "1 \<le> maxDepth"
  shows "\<exists>ss'. assignDepths maxDepth ss = Inr ss' \<and> length ss' = length ss \<and>
     (\<forall>i < length ss.
        m_helper (ss' ! i) = m_helper (ss ! i) \<and>
        depth (ss' ! i) =
          (if \<not> m_helper (ss ! i) then maxDepth
           else if maxDepth = 1 then maxDepth
           else if i mod 2 = 1 then maxDepth else maxDepth - 1) \<and>
        1 \<le> depth (ss' ! i))"
proof -
  from assignDepthsFrom_value [OF assms, of 0 ss] obtain ss' where
    t: "assignDepthsFrom maxDepth 0 ss = Inr ss'" and l: "length ss' = length ss"
    and e: "\<forall>i < length ss. ss' ! i = (ss ! i)\<lparr>depth :=
         (if \<not> m_helper (ss ! i) then maxDepth
          else if maxDepth = 1 then maxDepth
          else if (0 + i) mod 2 = 1 then maxDepth else maxDepth - 1)\<rparr>"
    by blast
  have "assignDepths maxDepth ss = Inr ss'"
    using assms t by (simp add: assignDepths_def)
  moreover have "\<forall>i < length ss.
        m_helper (ss' ! i) = m_helper (ss ! i) \<and>
        depth (ss' ! i) =
          (if \<not> m_helper (ss ! i) then maxDepth
           else if maxDepth = 1 then maxDepth
           else if i mod 2 = 1 then maxDepth else maxDepth - 1) \<and>
        1 \<le> depth (ss' ! i)"
    using e assms su8_pred_ge_1 [of maxDepth] by auto
  ultimately show ?thesis using l by blast
qed

theorem assignDepths_staggered_witness:
  "(1::su8) \<le> 6 \<and>
   (\<exists>ss'. assignDepths 6 [Searcher_new () False, Searcher_new () True, Searcher_new () True]
            = Inr ss' \<and>
          depth (ss' ! 0) = 6 \<and> depth (ss' ! 1) = 6 \<and> depth (ss' ! 2) = 5)"
  using assignDepths_staggered [of 6
      "[Searcher_new () False, Searcher_new () True, Searcher_new () True]"]
  by (auto simp: nth_Cons' Searcher_new_def)

section \<open>Late-move reduction\<close>

lemma trim_depth_le:
  "trim lmr mp i = Inr mp' \<Longrightarrow> m_recommendedDepth mp' \<le> m_recommendedDepth mp"
  by (auto simp: trim_def split: sum.splits if_splits)

lemma su8_add_one_total:
  "unat a + 1 < 219 \<Longrightarrow> su8_add a 1 = Inr (a + 1) \<and> unat (a + 1) = unat a + 1"
  by (auto simp: su8_add_def word_le_nat_alt unat_sub unat_word_ariths)

lemma subToMin_zero_total: "\<exists>c. subToMin a s 0 = Inr c"
  by (auto simp: subToMin_def su8_sub_def not_less)

lemma trim_total:
  assumes d: "unat (m_recommendedDepth mp) + 1 < MAX_MOVE_COUNT"
    and i: "unat i + 1 < MAX_MOVE_COUNT"
  shows "\<exists>mp'. trim lmr mp i = Inr mp'"
proof -
  from d have d1: "su8_add (m_recommendedDepth mp) 1 = Inr (m_recommendedDepth mp + 1)"
      and d2: "unat (m_recommendedDepth mp + 1) < MAX_MOVE_COUNT"
    using su8_add_one_total [of "m_recommendedDepth mp"] by (simp_all add: MAX_MOVE_COUNT_def)
  from i have i1: "su8_add i 1 = Inr (i + 1)" and i2: "unat (i + 1) < MAX_MOVE_COUNT"
    using su8_add_one_total [of i] by (simp_all add: MAX_MOVE_COUNT_def)
  obtain c where c: "subToMin (m_recommendedDepth mp + 1)
      (lmr (unat (m_recommendedDepth mp + 1)) (unat (i + 1))) 0 = Inr c"
    using subToMin_zero_total by blast
  show ?thesis
    by (simp add: trim_def d1 d2 i1 i2 c)
qed

text \<open>
  C7. Whatever the priority, the move index and the value of the floating-point
  reduction: when \<open>trim\<close> returns, the recommended depth lies between 0 and the depth it
  had before the call, and a second \<open>trim\<close> (with any index) does not increase it. And
  \<open>trim\<close> does return whenever both indices into the table of logarithms,
  \<open>recommendedDepth + 1\<close> and \<open>moveIndex + 1\<close>, lie inside its 219 entries.
\<close>

theorem trim_monotone:
  "(trim lmr mp i = Inr mp' \<longrightarrow>
      0 \<le> m_recommendedDepth mp' \<and> m_recommendedDepth mp' \<le> m_recommendedDepth mp) \<and>
   (trim lmr mp i = Inr mp' \<and> trim lmr2 mp' j = Inr mp'' \<longrightarrow>
      m_recommendedDepth mp'' \<le> m_recommendedDepth mp') \<and>
   (unat (m_recommendedDepth mp) + 1 < MAX_MOVE_COUNT \<and> unat i + 1 < MAX_MOVE_COUNT \<longrightarrow>
      (\<exists>r. trim lmr mp i = Inr r))"
  using trim_depth_le [of lmr mp i mp'] trim_depth_le [of lmr2 mp' j mp''] trim_total [of mp i lmr]
  by simp

theorem trim_monotone_witness:
  "trim (\<lambda>d i. 2) \<lparr>m_move = Move_null, m_exchangeRating = 0, m_recommendedDepth = 5, m_trimmed = False\<rparr> 3
     = Inr \<lparr>m_move = Move_null, m_exchangeRating = 0, m_recommendedDepth = 4, m_trimmed = True\<rparr> \<and>
   trim (\<lambda>d i. 2) \<lparr>m_move = Move_null, m_exchangeRating = 0, m_recommendedDepth = 4, m_trimmed = True\<rparr> 7
     = Inr \<lparr>m_move = Move_null, m_exchangeRating = 0, m_recommendedDepth = 3, m_trimmed = True\<rparr> \<and>
   (4::su8) \<le> 5 \<and> (3::su8) \<le> 4 \<and>
   unat (5::su8) + 1 < MAX_MOVE_COUNT \<and> unat (3::su8) + 1 < MAX_MOVE_COUNT"
  using trim_monotone [of "\<lambda>d i. 2"
      "\<lparr>m_move = Move_null, m_exchangeRating = 0, m_recommendedDepth = 5, m_trimmed = False\<rparr>" 3
      "\<lparr>m_move = Move_null, m_exchangeRating = 0, m_recommendedDepth = 4, m_trimmed = True\<rparr>"
      "\<lambda>d i. 2" 7
      "\<lparr>m_move = Move_null, m_exchangeRating = 0, m_recommendedDepth = 3, m_trimmed = True\<rparr>"]
  by (simp add: trim_def su8_add_def subToMin_def su8_sub_def MAX_MOVE_COUNT_def)

section \<open>The weighted vote\<close>

lemma rounding_mono: "rounding rnd \<Longrightarrow> x \<le> y \<Longrightarrow> rnd x \<le> rnd y"
  by (simp add: rounding_def mono_def)

lemma rounding_idem: "rounding rnd \<Longrightarrow> rnd (rnd x) = rnd x"
  by (simp add: rounding_def)

lemma rounding_nonneg: "rounding rnd \<Longrightarrow> 0 \<le> x \<Longrightarrow> 0 \<le> rnd x"
  using rounding_mono [of rnd 0 x] by (simp add: rounding_def)

lemma rounding_ge_one: "rounding rnd \<Longrightarrow> 1 \<le> x \<Longrightarrow> 1 \<le> rnd x"
  using rounding_mono [of rnd 1 x] by (simp add: rounding_def)

lemma rounding_add: "rounding rnd \<Longrightarrow> rnd t = t \<Longrightarrow> 0 \<le> w \<Longrightarrow> t \<le> rnd (t + w)"
  using rounding_mono [of rnd t "t + w"] by simp

lemma rounding_id: "rounding id"
  by (simp add: rounding_def mono_def)

lemma accumulatedFrom_append:
  "accumulatedFrom rnd W D t (xs @ ys) m =
     accumulatedFrom rnd W D (accumulatedFrom rnd W D t xs m) ys m"
  by (induction xs arbitrary: t) auto

lemma accumulated_snoc:
  "accumulated rnd W D (pre @ [(mr, s)]) m =
     (if move mr = m then rnd (accumulated rnd W D pre m + plainWeight rnd s mr W D)
      else accumulated rnd W D pre m)"
  by (simp add: accumulated_def accumulatedFrom_append)

lemma accumulatedFrom_nondecreasing:
  assumes r: "rounding rnd"
    and w: "\<forall>(mr, s) \<in> set votes. 0 \<le> plainWeight rnd s mr W D"
    and t: "rnd t = t"
  shows "t \<le> accumulatedFrom rnd W D t votes m"
  using w t
proof (induction votes arbitrary: t)
  case Nil
  show ?case by simp
next
  case (Cons x votes)
  obtain mr s where x: "x = (mr, s)" by (cases x)
  let ?t = "if move mr = m then rnd (t + plainWeight rnd s mr W D) else t"
  have w0: "0 \<le> plainWeight rnd s mr W D" using Cons.prems(1) x by simp
  have step: "t \<le> ?t" using rounding_add [OF r Cons.prems(2) w0] by simp
  have fixed: "rnd ?t = ?t" using Cons.prems(2) rounding_idem [OF r] by simp
  have rest: "\<forall>(mr, s) \<in> set votes. 0 \<le> plainWeight rnd s mr W D" using Cons.prems(1) by simp
  have "?t \<le> accumulatedFrom rnd W D ?t votes m"
    using rest fixed by (rule Cons.IH)
  with step show ?case using x by simp
qed

lemma accumulated_ge_one:
  assumes r: "rounding rnd"
    and w: "\<forall>(mr, s) \<in> set votes. 0 \<le> plainWeight rnd s mr W D"
    and v: "(mr, s) \<in> set votes" and one: "1 \<le> plainWeight rnd s mr W D"
  shows "1 \<le> accumulated rnd W D votes (move mr)"
proof -
  from v obtain pre post where sp: "votes = pre @ (mr, s) # post"
    by (meson split_list)
  have r0: "rnd 0 = 0" using r by (simp add: rounding_def)
  have wpre: "\<forall>(mr, s) \<in> set pre. 0 \<le> plainWeight rnd s mr W D"
    and wpost: "\<forall>(mr, s) \<in> set post. 0 \<le> plainWeight rnd s mr W D"
    using w sp by simp_all
  let ?a = "accumulatedFrom rnd W D 0 pre (move mr)"
  let ?t = "rnd (?a + plainWeight rnd s mr W D)"
  have "0 \<le> ?a" using r wpre r0 by (rule accumulatedFrom_nondecreasing)
  with one have "1 \<le> ?a + plainWeight rnd s mr W D" by simp
  then have t1: "1 \<le> ?t" by (rule rounding_ge_one [OF r])
  have "?t \<le> accumulatedFrom rnd W D ?t post (move mr)"
    using r wpost rounding_idem [OF r] by (rule accumulatedFrom_nondecreasing)
  with t1 show ?thesis
    by (simp add: accumulated_def sp accumulatedFrom_append)
qed

lemma getVotingWeight_plain:
  "checkmateLevel mr = None \<Longrightarrow> 0 \<le> D \<Longrightarrow>
   getVotingWeight rnd s mr W D = Inr (plainWeight rnd s mr W D)"
  by (simp add: getVotingWeight_def plainWeight_def)

lemma min_element_from_le: "key (min_element_from key b xs) \<le> key b"
  by (induction xs arbitrary: b) (auto intro: order_trans less_imp_le)

lemma min_element_from_least:
  "x \<in> set xs \<Longrightarrow> key (min_element_from key b xs) \<le> key x"
proof (induction xs arbitrary: b)
  case Nil
  then show ?case by simp
next
  case (Cons a xs)
  show ?case
  proof (cases "x = a")
    case True
    have "key (min_element_from key (if key a < key b then a else b) xs)
            \<le> key (if key a < key b then a else b)"
      by (rule min_element_from_le)
    also have "\<dots> \<le> key a" by auto
    finally show ?thesis using True by simp
  next
    case False
    with Cons.prems have "x \<in> set xs" by simp
    from Cons.IH [OF this] show ?thesis by simp
  qed
qed

lemma min_element_from_mem: "min_element_from key b xs \<in> insert b (set xs)"
  by (induction xs arbitrary: b) auto

lemma max_element_from_ge: "key b \<le> key (max_element_from key b xs)"
proof (induction xs arbitrary: b)
  case Nil
  show ?case by simp
next
  case (Cons a xs)
  have "key b \<le> key (if key a < key b then b else a)" by auto
  also have "\<dots> \<le> key (max_element_from key (if key a < key b then b else a) xs)"
    by (rule Cons.IH)
  finally show ?case by simp
qed

lemma max_element_from_greatest:
  "x \<in> set xs \<Longrightarrow> key x \<le> key (max_element_from key b xs)"
proof (induction xs arbitrary: b)
  case Nil
  then show ?case by simp
next
  case (Cons a xs)
  show ?case
  proof (cases "x = a")
    case True
    have "key a \<le> key (if key a < key b then b else a)" by auto
    also have "\<dots> \<le> key (max_element_from key (if key a < key b then b else a) xs)"
      by (rule max_element_from_ge)
    finally show ?thesis using True by simp
  next
    case False
    with Cons.prems have "x \<in> set xs" by simp
    from Cons.IH [OF this] show ?thesis by simp
  qed
qed

lemma max_element_from_mem: "max_element_from key b xs \<in> insert b (set xs)"
  by (induction xs arbitrary: b) auto

lemma plainWeight_nonneg:
  assumes r: "rounding rnd" and "W \<le> rating mr" "0 \<le> D"
  shows "0 \<le> plainWeight rnd s mr W D"
proof -
  note rn = rounding_nonneg [OF r]
  have "0 \<le> rnd (2 ^ unat (depth s))" by (rule rn) simp
  then have "0 \<le> 1 + rnd (2 ^ unat (depth s))" by simp
  then have base: "0 \<le> rnd (1 + rnd (2 ^ unat (depth s)))" by (rule rn)
  have a: "0 \<le> rnd (rating mr - W)" using assms(2) by (rule_tac rn) simp
  have b: "0 \<le> rnd 1.2" by (rule rn) simp
  have "0 \<le> rnd 1.2 * rnd (rating mr - W)" using a b by (rule_tac mult_nonneg_nonneg)
  then have "0 \<le> rnd (rnd 1.2 * rnd (rating mr - W))" by (rule rn)
  then have "0 \<le> rnd (rnd 1.2 * rnd (rating mr - W)) / D"
    using assms(3) by (rule divide_nonneg_nonneg)
  then have "0 \<le> rnd (rnd (rnd 1.2 * rnd (rating mr - W)) / D)" by (rule rn)
  with base have "0 \<le> rnd (1 + rnd (2 ^ unat (depth s)))
                  * rnd (rnd (rnd 1.2 * rnd (rating mr - W)) / D)"
    by (rule mult_nonneg_nonneg)
  then have "0 \<le> rnd (rnd (1 + rnd (2 ^ unat (depth s)))
                  * rnd (rnd (rnd 1.2 * rnd (rating mr - W)) / D))"
    by (rule rn)
  with base show ?thesis by (simp add: plainWeight_def)
qed

lemma plainWeight_best:
  assumes r: "rounding rnd" and d: "D = rnd (rating mr - W)" and "0 \<le> D"
  shows "1 \<le> plainWeight rnd s mr W D"
proof -
  note r1 = rounding_ge_one [OF r]
  have "(1::real) \<le> 2 ^ unat (depth s)" by simp
  then have "1 \<le> rnd (2 ^ unat (depth s))" by (rule r1)
  then have "1 \<le> 1 + rnd (2 ^ unat (depth s))" by simp
  then have base: "1 \<le> rnd (1 + rnd (2 ^ unat (depth s)))" by (rule r1)
  show ?thesis
  proof (cases "D = 0")
    case True
    with base show ?thesis by (simp add: plainWeight_def)
  next
    case False
    with assms(3) have pos: "0 < D" by simp
    have c: "1 \<le> rnd 1.2" by (rule r1) simp
    have "D \<le> rnd 1.2 * D" using c pos by simp
    then have "rnd D \<le> rnd (rnd 1.2 * D)" by (rule rounding_mono [OF r])
    moreover have "rnd D = D" using d rounding_idem [OF r] by simp
    ultimately have "D \<le> rnd (rnd 1.2 * D)" by simp
    then have "1 \<le> rnd (rnd 1.2 * D) / D" using pos by (simp add: le_divide_eq_1_pos)
    then have f: "1 \<le> rnd (rnd (rnd 1.2 * D) / D)" by (rule r1)
    have "1 * 1 \<le> rnd (1 + rnd (2 ^ unat (depth s))) * rnd (rnd (rnd 1.2 * D) / D)"
      using base f by (intro mult_mono) simp_all
    then have "1 \<le> rnd (rnd (1 + rnd (2 ^ unat (depth s))) * rnd (rnd (rnd 1.2 * D) / D))"
      by (intro r1) simp
    then show ?thesis using False d by (simp add: plainWeight_def)
  qed
qed

lemma votesInv_init: "rnd 0 = 0 \<Longrightarrow> votesInv rnd W D [] Votes_init"
  by (simp add: votesInv_def Votes_init_def accumulated_def)

lemma votesInv_step:
  assumes r: "rounding rnd"
    and inv: "votesInv rnd W D pre vs" and w: "0 \<le> plainWeight rnd s mr W D"
  defines "v \<equiv> rnd (moveRatings vs (move mr) + plainWeight rnd s mr W D)"
  defines "vs1 \<equiv> vs\<lparr>moveRatings := (moveRatings vs)(move mr := v), weighed := weighed vs @ [mr]\<rparr>"
  shows "votesInv rnd W D (pre @ [(mr, s)])
           (if bestVoteRating vs < v then vs1\<lparr>bestVoteRating := v, voteBestMove := move mr\<rparr> else vs1)"
proof -
  from inv have tal: "\<And>m. moveRatings vs m = accumulated rnd W D pre m"
    and wg: "weighed vs = map fst pre"
    and b0: "0 \<le> bestVoteRating vs"
    and bf: "rnd (bestVoteRating vs) = bestVoteRating vs"
    and ub: "\<And>m. accumulated rnd W D pre m \<le> bestVoteRating vs"
    and nul: "bestVoteRating vs = 0 \<longrightarrow> voteBestMove vs = Move_null"
    and pos: "0 < bestVoteRating vs \<longrightarrow>
         voteBestMove vs \<in> move ` fst ` set pre \<and>
         accumulated rnd W D pre (voteBestMove vs) = bestVoteRating vs \<and>
         (\<exists>k \<le> length pre.
            accumulated rnd W D (take k pre) (voteBestMove vs) = bestVoteRating vs \<and>
            (\<forall>m. m \<noteq> voteBestMove vs \<longrightarrow>
                 accumulated rnd W D (take k pre) m < bestVoteRating vs))"
    by (simp_all add: votesInv_def)
  have acc: "\<And>m. accumulated rnd W D (pre @ [(mr, s)]) m =
      (if move mr = m then v else accumulated rnd W D pre m)"
    by (simp add: accumulated_snoc v_def tal)
  have vf: "rnd v = v" by (simp add: v_def rounding_idem [OF r])
  have upd: "\<And>m. ((moveRatings vs)(move mr := v)) m = accumulated rnd W D (pre @ [(mr, s)]) m"
    by (simp add: acc tal)
  show ?thesis
  proof (cases "bestVoteRating vs < v")
    case True
    have others: "\<And>m. m \<noteq> move mr \<Longrightarrow> accumulated rnd W D (pre @ [(mr, s)]) m < v"
    proof -
      fix m assume "m \<noteq> move mr"
      then have "accumulated rnd W D (pre @ [(mr, s)]) m = accumulated rnd W D pre m"
        by (auto simp: acc)
      also have "\<dots> \<le> bestVoteRating vs" by (rule ub)
      finally show "accumulated rnd W D (pre @ [(mr, s)]) m < v" using True by simp
    qed
    have first: "\<exists>k \<le> length (pre @ [(mr, s)]).
            accumulated rnd W D (take k (pre @ [(mr, s)])) (move mr) = v \<and>
            (\<forall>m. m \<noteq> move mr \<longrightarrow> accumulated rnd W D (take k (pre @ [(mr, s)])) m < v)"
      by (rule exI [of _ "length (pre @ [(mr, s)])"]) (use others in \<open>simp add: acc\<close>)
    have upper: "\<And>m. accumulated rnd W D (pre @ [(mr, s)]) m \<le> v"
    proof -
      fix m show "accumulated rnd W D (pre @ [(mr, s)]) m \<le> v"
        using others [of m] by (cases "m = move mr") (auto simp: acc)
    qed
    have vpos: "0 < v" using True b0 by linarith
    have top: "accumulated rnd W D (pre @ [(mr, s)]) (move mr) = v" by (simp add: acc)
    show ?thesis
      using True first upper vpos top vf
      by (simp add: votesInv_def vs1_def upd wg del: fun_upd_apply)
  next
    case False
    then have le: "v \<le> bestVoteRating vs" by simp
    have ub': "\<And>m. accumulated rnd W D (pre @ [(mr, s)]) m \<le> bestVoteRating vs"
    proof -
      fix m show "accumulated rnd W D (pre @ [(mr, s)]) m \<le> bestVoteRating vs"
        using le ub [of m] by (auto simp: acc)
    qed
    have keep: "0 < bestVoteRating vs \<Longrightarrow>
         accumulated rnd W D (pre @ [(mr, s)]) (voteBestMove vs) = bestVoteRating vs"
    proof -
      assume p: "0 < bestVoteRating vs"
      with pos have e: "accumulated rnd W D pre (voteBestMove vs) = bestVoteRating vs" by blast
      show ?thesis
      proof (cases "move mr = voteBestMove vs")
        case True
        then have "v = rnd (bestVoteRating vs + plainWeight rnd s mr W D)"
          by (simp add: v_def tal e)
        then have "bestVoteRating vs \<le> v"
          using rounding_add [OF r bf w] by simp
        with le have "v = bestVoteRating vs" by simp
        then show ?thesis using True by (simp add: acc)
      next
        case False
        then show ?thesis using e by (simp add: acc)
      qed
    qed
    have first: "0 < bestVoteRating vs \<Longrightarrow> \<exists>k \<le> length (pre @ [(mr, s)]).
            accumulated rnd W D (take k (pre @ [(mr, s)])) (voteBestMove vs) = bestVoteRating vs \<and>
            (\<forall>m. m \<noteq> voteBestMove vs \<longrightarrow>
                 accumulated rnd W D (take k (pre @ [(mr, s)])) m < bestVoteRating vs)"
    proof -
      assume p: "0 < bestVoteRating vs"
      with pos obtain k where k: "k \<le> length pre"
        "accumulated rnd W D (take k pre) (voteBestMove vs) = bestVoteRating vs"
        "\<forall>m. m \<noteq> voteBestMove vs \<longrightarrow> accumulated rnd W D (take k pre) m < bestVoteRating vs"
        by blast
      show ?thesis
        by (rule exI [of _ k]) (use k in simp)
    qed
    have mem: "0 < bestVoteRating vs \<Longrightarrow> voteBestMove vs \<in> move ` fst ` set (pre @ [(mr, s)])"
      using pos by auto
    show ?thesis
      using False b0 bf ub' nul keep first mem
      by (simp add: votesInv_def vs1_def upd wg del: fun_upd_apply)
  qed
qed

lemma voteLoop_inv:
  assumes "rounding rnd" "votesInv rnd W D pre vs"
    and "\<forall>(mr, s) \<in> set votes. checkmateLevel mr = None \<and> W \<le> rating mr"
    and "0 \<le> D"
  shows "\<exists>vs'. voteLoop rnd W D votes vs = Inr vs' \<and> votesInv rnd W D (pre @ votes) vs'"
  using assms(2,3)
proof (induction votes arbitrary: pre vs)
  case Nil
  then show ?case by simp
next
  case (Cons x votes)
  obtain mr s where x: "x = (mr, s)" by (cases x)
  from Cons.prems x have c: "checkmateLevel mr = None" and r: "W \<le> rating mr" by auto
  have w: "0 \<le> plainWeight rnd s mr W D"
    using assms(1) r assms(4) by (rule plainWeight_nonneg)
  let ?v = "rnd (moveRatings vs (move mr) + plainWeight rnd s mr W D)"
  let ?vs1 = "vs\<lparr>moveRatings := (moveRatings vs)(move mr := ?v), weighed := weighed vs @ [mr]\<rparr>"
  let ?next = "if bestVoteRating vs < ?v then ?vs1\<lparr>bestVoteRating := ?v, voteBestMove := move mr\<rparr> else ?vs1"
  have inv': "votesInv rnd W D (pre @ [(mr, s)]) ?next"
    using votesInv_step [OF assms(1) Cons.prems(1) w] by simp
  have rest: "\<forall>(mr, s) \<in> set votes. checkmateLevel mr = None \<and> W \<le> rating mr"
    using Cons.prems(2) by simp
  from Cons.IH [OF inv' rest] obtain vs' where
    "voteLoop rnd W D votes ?next = Inr vs'" "votesInv rnd W D ((pre @ [(mr, s)]) @ votes) vs'"
    by blast
  then show ?case
    using x c assms(4) by (simp add: getVotingWeight_plain Let_def)
qed

lemma no_checkmate_levels:
  "\<not> anyPathsLeadToCheckmate moves \<Longrightarrow> mr \<in> set moves \<Longrightarrow> checkmateLevel mr = None"
  by (auto simp: anyPathsLeadToCheckmate_def list_ex_iff)

lemma countVotes_no_checkmate:
  assumes r: "rounding rnd"
    and nc: "\<not> anyPathsLeadToCheckmate moves" and ne: "moves \<noteq> []"
  shows "\<exists>worst best vs.
           min_element rating moves = Inr worst \<and> max_element rating moves = Inr best \<and>
           best \<in> set moves \<and> (\<forall>mr \<in> set moves. rating worst \<le> rating mr) \<and>
           rating worst \<le> rating best \<and>
           countVotes rnd searchers moves = Inr vs \<and>
           votesInv rnd (rating worst) (rnd (rating best - rating worst)) (zip moves searchers) vs"
proof -
  from ne obtain x rest where m: "moves = x # rest" by (cases moves) auto
  let ?worst = "min_element_from rating x rest"
  let ?best = "max_element_from rating x rest"
  have mn: "min_element rating moves = Inr ?worst" and mx: "max_element rating moves = Inr ?best"
    by (simp_all add: m min_element_def max_element_def)
  have least: "\<forall>mr \<in> set moves. rating ?worst \<le> rating mr"
    using min_element_from_le [of rating x rest] min_element_from_least [of _ rest rating x]
    by (auto simp: m)
  have bmem: "?best \<in> set moves"
    using max_element_from_mem [of rating x rest] by (simp add: m)
  have wb: "rating ?worst \<le> rating ?best"
    using least bmem by blast
  have d0: "0 \<le> rnd (rating ?best - rating ?worst)"
    using wb by (intro rounding_nonneg [OF r]) simp
  have votes: "\<forall>(mr, s) \<in> set (zip moves searchers).
      checkmateLevel mr = None \<and> rating ?worst \<le> rating mr"
    using least no_checkmate_levels [OF nc] by (auto dest: set_zip_leftD)
  have r0: "rnd 0 = 0" using r by (simp add: rounding_def)
  from voteLoop_inv [OF r votesInv_init [of rnd, OF r0] votes d0]
  obtain vs where vs: "voteLoop rnd (rating ?worst) (rnd (rating ?best - rating ?worst))
        (zip moves searchers) Votes_init = Inr vs"
      "votesInv rnd (rating ?worst) (rnd (rating ?best - rating ?worst)) (zip moves searchers) vs"
    by auto
  have "countVotes rnd searchers moves = Inr vs"
    using nc vs(1) by (simp add: countVotes_def mn mx)
  with mn mx bmem least wb vs(2) show ?thesis by blast
qed

text \<open>
  C3, as amended. On the path of the weighted vote (no result carries a checkmate level;
  one result per worker), and for every rounding of the arithmetic: the weights are
  summed per distinct move, in the order of the workers, and the move returned is one
  that a worker voted for and whose accumulated weight, as computed, is greatest. When
  another move ends with the same greatest weight, the move returned is the one whose
  running sum reached that weight first: at some point of the enumeration of the
  workers its sum was already final while the other move's sum was still smaller.
\<close>

theorem voteForBestMove_greatest_weight:
  assumes r: "rounding rnd"
    and nc: "\<not> anyPathsLeadToCheckmate moves" and ne: "moves \<noteq> []"
    and len: "length searchers = length moves"
  shows "\<exists>worst best vs.
           min_element rating moves = Inr worst \<and> max_element rating moves = Inr best \<and>
           countVotes rnd searchers moves = Inr vs \<and>
           voteForBestMove rnd searchers moves = Inr (voteBestMove vs) \<and>
           voteBestMove vs \<in> move ` set moves \<and>
           (\<forall>m. moveRatings vs m =
                  accumulated rnd (rating worst) (rnd (rating best - rating worst))
                    (zip moves searchers) m) \<and>
           (\<forall>m. moveRatings vs m \<le> moveRatings vs (voteBestMove vs)) \<and>
           (\<forall>m. m \<noteq> voteBestMove vs \<and> moveRatings vs m = moveRatings vs (voteBestMove vs) \<longrightarrow>
              (\<exists>k \<le> length moves.
                 accumulated rnd (rating worst) (rnd (rating best - rating worst))
                   (take k (zip moves searchers)) (voteBestMove vs) = moveRatings vs (voteBestMove vs) \<and>
                 accumulated rnd (rating worst) (rnd (rating best - rating worst))
                   (take k (zip moves searchers)) m < moveRatings vs m))"
proof -
  from countVotes_no_checkmate [OF r nc ne, of searchers] obtain worst best vs where
    mn: "min_element rating moves = Inr worst" and mx: "max_element rating moves = Inr best"
    and bmem: "best \<in> set moves" and least: "\<forall>mr \<in> set moves. rating worst \<le> rating mr"
    and wb: "rating worst \<le> rating best"
    and cv: "countVotes rnd searchers moves = Inr vs"
    and inv: "votesInv rnd (rating worst) (rnd (rating best - rating worst)) (zip moves searchers) vs"
    by blast
  let ?W = "rating worst" and ?D = "rnd (rating best - rating worst)"
  let ?votes = "zip moves searchers"
  have d0: "0 \<le> ?D" using wb by (intro rounding_nonneg [OF r]) simp
  from inv have tal: "\<And>m. moveRatings vs m = accumulated rnd ?W ?D ?votes m"
    and ub: "\<And>m. accumulated rnd ?W ?D ?votes m \<le> bestVoteRating vs"
    and pos: "0 < bestVoteRating vs \<longrightarrow>
         voteBestMove vs \<in> move ` fst ` set ?votes \<and>
         accumulated rnd ?W ?D ?votes (voteBestMove vs) = bestVoteRating vs \<and>
         (\<exists>k \<le> length ?votes.
            accumulated rnd ?W ?D (take k ?votes) (voteBestMove vs) = bestVoteRating vs \<and>
            (\<forall>m. m \<noteq> voteBestMove vs \<longrightarrow>
                 accumulated rnd ?W ?D (take k ?votes) m < bestVoteRating vs))"
    by (simp_all add: votesInv_def)
  have nonneg: "\<forall>(mr, s) \<in> set ?votes. 0 \<le> plainWeight rnd s mr ?W ?D"
  proof (clarify)
    fix mr s assume "(mr, s) \<in> set ?votes"
    then have "mr \<in> set moves" by (rule set_zip_leftD)
    with least have "rating worst \<le> rating mr" by blast
    then show "0 \<le> plainWeight rnd s mr ?W ?D"
      using d0 by (intro plainWeight_nonneg [OF r])
  qed
  from bmem len obtain s where s: "(best, s) \<in> set ?votes"
    by (metis in_set_impl_in_set_zip1)
  have "1 \<le> plainWeight rnd s best ?W ?D"
    using d0 by (intro plainWeight_best [OF r]) simp_all
  then have "1 \<le> accumulated rnd ?W ?D ?votes (move best)"
    using nonneg s by (intro accumulated_ge_one [OF r])
  also have "\<dots> \<le> bestVoteRating vs" by (rule ub)
  finally have p: "0 < bestVoteRating vs" by simp
  with pos have mem: "voteBestMove vs \<in> move ` fst ` set ?votes"
    and top: "accumulated rnd ?W ?D ?votes (voteBestMove vs) = bestVoteRating vs"
    and first: "\<exists>k \<le> length ?votes.
            accumulated rnd ?W ?D (take k ?votes) (voteBestMove vs) = bestVoteRating vs \<and>
            (\<forall>m. m \<noteq> voteBestMove vs \<longrightarrow>
                 accumulated rnd ?W ?D (take k ?votes) m < bestVoteRating vs)"
    by blast+
  from first obtain k where k: "k \<le> length ?votes"
    "accumulated rnd ?W ?D (take k ?votes) (voteBestMove vs) = bestVoteRating vs"
    "\<forall>m. m \<noteq> voteBestMove vs \<longrightarrow> accumulated rnd ?W ?D (take k ?votes) m < bestVoteRating vs"
    by blast
  have a: "voteForBestMove rnd searchers moves = Inr (voteBestMove vs)"
    by (simp add: voteForBestMove_def cv)
  have b: "voteBestMove vs \<in> move ` set moves"
    using mem by (auto dest: set_zip_leftD)
  have c: "\<forall>m. moveRatings vs m \<le> moveRatings vs (voteBestMove vs)"
    using ub top by (simp add: tal)
  have d: "\<forall>m. m \<noteq> voteBestMove vs \<and> moveRatings vs m = moveRatings vs (voteBestMove vs) \<longrightarrow>
              (\<exists>k \<le> length moves.
                 accumulated rnd ?W ?D (take k ?votes) (voteBestMove vs) = moveRatings vs (voteBestMove vs) \<and>
                 accumulated rnd ?W ?D (take k ?votes) m < moveRatings vs m)"
  proof (intro allI impI)
    fix m assume h: "m \<noteq> voteBestMove vs \<and> moveRatings vs m = moveRatings vs (voteBestMove vs)"
    show "\<exists>k \<le> length moves.
                 accumulated rnd ?W ?D (take k ?votes) (voteBestMove vs) = moveRatings vs (voteBestMove vs) \<and>
                 accumulated rnd ?W ?D (take k ?votes) m < moveRatings vs m"
      by (rule exI [of _ k]) (use k h top len in \<open>simp add: tal\<close>)
  qed
  from mn mx cv a b tal c d show ?thesis by blast
qed


lemma first_seen_any_rounding:
  assumes "rnd 0 = 0" "rnd 2 = 2" "rnd 3 = 3" "rnd 6 = 6"
  shows "voteForBestMove rnd [worker False 1, worker True 1, worker True 1, worker True 1]
     [MoveRating3 moveA 0 False, MoveRating3 moveB 0 False,
      MoveRating3 moveB 0 False, MoveRating3 moveA 0 False] = Inr moveB"
  using assms
  by (simp add: voteForBestMove_def countVotes_def anyPathsLeadToCheckmate_def MoveRating3_def
      min_element_def max_element_def getVotingWeight_def Votes_init_def
      worker_def Searcher_new_def moveA_def moveB_def)

text \<open>
  C3, as stated, fails. Four workers of depth 1 report equal ratings and vote for the
  moves A, B, B, A. Every weight is 3, both moves end with the weight 6, and A is the
  move seen first, but the vote returns B, whose running sum reached 6 first. The
  numbers that occur (0, 2, 3, 6) are machine numbers, so the rounding leaves them as
  they are, as \<open>first_seen_any_rounding\<close> says for every rounding; here it is the
  identity.
\<close>

theorem voteForBestMove_first_seen_counterexample:
  "voteForBestMove id [worker False 1, worker True 1, worker True 1, worker True 1]
     [MoveRating3 moveA 0 False, MoveRating3 moveB 0 False,
      MoveRating3 moveB 0 False, MoveRating3 moveA 0 False] = Inr moveB \<and>
   accumulated id 0 0 (zip [MoveRating3 moveA 0 False, MoveRating3 moveB 0 False,
                            MoveRating3 moveB 0 False, MoveRating3 moveA 0 False]
                        [worker False 1, worker True 1, worker True 1, worker True 1]) moveA = 6 \<and>
   accumulated id 0 0 (zip [MoveRating3 moveA 0 False, MoveRating3 moveB 0 False,
                            MoveRating3 moveB 0 False, MoveRating3 moveA 0 False]
                        [worker False 1, worker True 1, worker True 1, worker True 1]) moveB = 6 \<and>
   moveA \<noteq> moveB"
  by (simp add: voteForBestMove_def countVotes_def anyPathsLeadToCheckmate_def MoveRating3_def
      min_element_def max_element_def getVotingWeight_def Votes_init_def plainWeight_def
      accumulated_def worker_def Searcher_new_def moveA_def moveB_def)

lemma min_element_checkmate:
  assumes "anyPathsLeadToCheckmate moves"
  shows "\<exists>q. min_element checkmateKey moves = Inr q \<and> q \<in> set moves \<and>
             (\<forall>mr \<in> set moves. checkmateKey q \<le> checkmateKey mr)"
proof -
  from assms obtain x rest where m: "moves = x # rest"
    by (cases moves) (auto simp: anyPathsLeadToCheckmate_def)
  let ?q = "min_element_from checkmateKey x rest"
  have "min_element checkmateKey moves = Inr ?q"
    by (simp add: m min_element_def)
  moreover have "?q \<in> set moves"
    using min_element_from_mem [of checkmateKey x rest] by (simp add: m)
  moreover have "\<forall>mr \<in> set moves. checkmateKey ?q \<le> checkmateKey mr"
    using min_element_from_le [of checkmateKey x rest]
      min_element_from_least [of _ rest checkmateKey x]
    by (auto simp: m)
  ultimately show ?thesis by blast
qed

lemma checkmateKey_level:
  assumes q: "\<forall>mr \<in> set moves. checkmateKey q \<le> checkmateKey mr"
    and some: "mr \<in> set moves" "checkmateLevel mr = Some l" "l < 255"
  shows "\<exists>lq. checkmateLevel q = Some lq \<and>
           (\<forall>mr' \<in> set moves. \<forall>l'. checkmateLevel mr' = Some l' \<longrightarrow> lq \<le> l')"
proof -
  from q some have "checkmateKey q \<le> l" by (auto simp: checkmateKey_def)
  with some(3) have lt: "checkmateKey q < 255" by simp
  then obtain lq where lq: "checkmateLevel q = Some lq"
    by (cases "checkmateLevel q") (auto simp: checkmateKey_def)
  have "\<forall>mr' \<in> set moves. \<forall>l'. checkmateLevel mr' = Some l' \<longrightarrow> lq \<le> l'"
    using q lq by (auto simp: checkmateKey_def split: option.splits)
  with lq show ?thesis by blast
qed

lemma getVotingWeight_no_level:
  "checkmateLevel mr = None \<Longrightarrow> getVotingWeight rnd s mr W D \<noteq> Inl DivisionByZero"
  by (simp add: getVotingWeight_def Let_def)

lemma voteLoop_weighed:
  assumes "\<forall>(mr, s) \<in> set votes. checkmateLevel mr = None"
  shows "voteLoop rnd W D votes vs \<noteq> Inl DivisionByZero \<and>
         (\<forall>vs'. voteLoop rnd W D votes vs = Inr vs' \<longrightarrow>
                weighed vs' = weighed vs @ map fst votes)"
  using assms
proof (induction votes arbitrary: vs)
  case Nil
  show ?case by simp
next
  case (Cons x votes)
  obtain mr s where x: "x = (mr, s)" by (cases x)
  from Cons.prems x have c: "checkmateLevel mr = None"
    and rest: "\<forall>(mr, s) \<in> set votes. checkmateLevel mr = None" by auto
  show ?case
  proof (cases "getVotingWeight rnd s mr W D")
    case (Inl e)
    with getVotingWeight_no_level [OF c, of rnd s W D] show ?thesis
      by (simp add: x)
  next
    case (Inr w)
    let ?v = "rnd (moveRatings vs (move mr) + w)"
    let ?vs1 = "vs\<lparr>moveRatings := (moveRatings vs)(move mr := ?v), weighed := weighed vs @ [mr]\<rparr>"
    let ?next = "if bestVoteRating vs < ?v
                 then ?vs1\<lparr>bestVoteRating := ?v, voteBestMove := move mr\<rparr> else ?vs1"
    have step: "voteLoop rnd W D (x # votes) vs = voteLoop rnd W D votes ?next"
      by (simp add: x Inr Let_def)
    have "weighed ?next = weighed vs @ [mr]" by simp
    with Cons.IH [OF rest, of ?next] show ?thesis
      unfolding step by (simp add: x)
  qed
qed

text \<open>
  C10. Whatever the workers, their results and the rounding, every \<open>MoveRating\<close> that the
  vote passes to \<open>getVotingWeight\<close> has no checkmate level, and the vote never ends in a
  division by zero. When some result carries a checkmate level, the vote returns at
  once, without weighing anything, the move of the first result whose key (its checkmate
  level, 255 when it has none) is least; that result carries the least checkmate level
  of all as soon as some level is below 255.
\<close>

theorem getVotingWeight_never_divides:
  "(\<forall>vs. countVotes rnd searchers moves = Inr vs \<longrightarrow>
        (\<forall>mr \<in> set (weighed vs). checkmateLevel mr = None)) \<and>
   countVotes rnd searchers moves \<noteq> Inl DivisionByZero \<and>
   (anyPathsLeadToCheckmate moves \<longrightarrow>
      (\<exists>q. min_element checkmateKey moves = Inr q \<and> q \<in> set moves \<and>
           (\<forall>mr \<in> set moves. checkmateKey q \<le> checkmateKey mr) \<and>
           ((\<exists>mr \<in> set moves. \<exists>l. checkmateLevel mr = Some l \<and> l < 255) \<longrightarrow>
              (\<exists>lq. checkmateLevel q = Some lq \<and>
                 (\<forall>mr \<in> set moves. \<forall>l. checkmateLevel mr = Some l \<longrightarrow> lq \<le> l))) \<and>
           countVotes rnd searchers moves = Inr (Votes_init\<lparr>voteBestMove := move q\<rparr>) \<and>
           weighed (Votes_init\<lparr>voteBestMove := move q\<rparr>) = [] \<and>
           voteForBestMove rnd searchers moves = Inr (move q)))"
proof (cases "anyPathsLeadToCheckmate moves")
  case True
  from min_element_checkmate [OF True] obtain q where
    q: "min_element checkmateKey moves = Inr q" "q \<in> set moves"
       "\<forall>mr \<in> set moves. checkmateKey q \<le> checkmateKey mr"
    by blast
  have cv: "countVotes rnd searchers moves = Inr (Votes_init\<lparr>voteBestMove := move q\<rparr>)"
    using True q(1) by (simp add: countVotes_def)
  have w: "weighed (Votes_init\<lparr>voteBestMove := move q\<rparr>) = []"
    by (simp add: Votes_init_def)
  have lv: "(\<exists>mr \<in> set moves. \<exists>l. checkmateLevel mr = Some l \<and> l < 255) \<longrightarrow>
              (\<exists>lq. checkmateLevel q = Some lq \<and>
                 (\<forall>mr \<in> set moves. \<forall>l. checkmateLevel mr = Some l \<longrightarrow> lq \<le> l))"
    using checkmateKey_level [OF q(3)] by blast
  have vf: "voteForBestMove rnd searchers moves = Inr (move q)"
    by (simp add: voteForBestMove_def cv)
  show ?thesis
    using True q cv w lv vf by auto
next
  case False
  show ?thesis
  proof (cases "moves = []")
    case True
    then show ?thesis
      using False by (simp add: countVotes_def min_element_def)
  next
    case ne: False
    then obtain x rest where m: "moves = x # rest" by (cases moves) auto
    have lv: "\<forall>(mr, s) \<in> set (zip moves searchers). checkmateLevel mr = None"
      using no_checkmate_levels [OF False] by (auto dest: set_zip_leftD)
    let ?W = "rating (min_element_from rating x rest)"
    let ?D = "rnd (rating (max_element_from rating x rest) - ?W)"
    have cv: "countVotes rnd searchers moves = voteLoop rnd ?W ?D (zip moves searchers) Votes_init"
      using False by (simp add: countVotes_def m min_element_def max_element_def)
    from voteLoop_weighed [OF lv, of rnd ?W ?D Votes_init]
    have a: "voteLoop rnd ?W ?D (zip moves searchers) Votes_init \<noteq> Inl DivisionByZero"
      and b: "\<forall>vs'. voteLoop rnd ?W ?D (zip moves searchers) Votes_init = Inr vs' \<longrightarrow>
                weighed vs' = weighed Votes_init @ map fst (zip moves searchers)"
      by blast+
    have "\<forall>vs. countVotes rnd searchers moves = Inr vs \<longrightarrow>
        (\<forall>mr \<in> set (weighed vs). checkmateLevel mr = None)"
      unfolding cv using b lv by (auto simp: Votes_init_def)
    then show ?thesis
      using False a by (simp add: cv)
  qed
qed

theorem getVotingWeight_never_divides_witness:
  "anyPathsLeadToCheckmate
     [MoveRating3 moveA 0 False,
      \<lparr>move = moveB, rating = 100000, invalidTTEntry = False, checkmateLevel = Some 0\<rparr>] \<and>
   countVotes id [worker False 3, worker True 3]
     [MoveRating3 moveA 0 False,
      \<lparr>move = moveB, rating = 100000, invalidTTEntry = False, checkmateLevel = Some 0\<rparr>]
     = Inr (Votes_init\<lparr>voteBestMove := moveB\<rparr>) \<and>
   weighed (Votes_init\<lparr>voteBestMove := moveB\<rparr>) = [] \<and>
   getVotingWeight id (worker True 3)
     \<lparr>move = moveB, rating = 100000, invalidTTEntry = False, checkmateLevel = Some 0\<rparr> 0 100000
     = Inl DivisionByZero"
  using getVotingWeight_never_divides [of id "[worker False 3, worker True 3]"
     "[MoveRating3 moveA 0 False,
      \<lparr>move = moveB, rating = 100000, invalidTTEntry = False, checkmateLevel = Some 0\<rparr>]"]
  by (simp add: countVotes_def anyPathsLeadToCheckmate_def MoveRating3_def min_element_def
      checkmateKey_def getVotingWeight_def Votes_init_def)

theorem voteForBestMove_greatest_weight_witness:
  "rounding id \<and>
   \<not> anyPathsLeadToCheckmate [MoveRating3 moveA 10 False, MoveRating3 moveB 30 False] \<and>
   voteForBestMove id [worker False 2, worker True 2]
     [MoveRating3 moveA 10 False, MoveRating3 moveB 30 False] = Inr moveB"
  using voteForBestMove_greatest_weight [OF rounding_id,
      of "[MoveRating3 moveA 10 False, MoveRating3 moveB 30 False]"
      "[worker False 2, worker True 2]"]
  by (simp add: rounding_id voteForBestMove_def countVotes_def anyPathsLeadToCheckmate_def
      MoveRating3_def min_element_def max_element_def getVotingWeight_def Votes_init_def
      worker_def Searcher_new_def moveA_def moveB_def)

section \<open>One node of the search\<close>

lemma tryShortCircuit_no_moves:
  "legalMoves env (pos node) = [] \<Longrightarrow>
   tryShortCircuit env fuel maximizing node ab st =
     Inr (if isCheckmate env (pos node)
          then MoveRating_default\<lparr>rating := checkmatedRating env maximizing,
                                  checkmateLevel := Some (level node)\<rparr>
          else MoveRating_default, st)"
  by (simp add: tryShortCircuit.simps)

lemma tryShortCircuit_repetition:
  "legalMoves env (pos node) \<noteq> [] \<Longrightarrow> 3 \<le> repetitionMap node (pos node) \<Longrightarrow>
   tryShortCircuit env fuel maximizing node ab st = Inr (MoveRating3 Move_null 0 True, st)"
  by (simp add: tryShortCircuit.simps)

lemma tryShortCircuit_stopped:
  "legalMoves env (pos node) \<noteq> [] \<Longrightarrow> \<not> 3 \<le> repetitionMap node (pos node) \<Longrightarrow>
   stopRequested env (loads st) \<Longrightarrow>
   tryShortCircuit env fuel maximizing node ab st =
     Inr (MoveRating3 Move_null (getRating env (pos node)) False, st\<lparr>loads := Suc (loads st)\<rparr>)"
  by (simp add: tryShortCircuit.simps loadStop_def)

lemma tryShortCircuit_running:
  assumes "legalMoves env (pos node) \<noteq> []" "\<not> 3 \<le> repetitionMap node (pos node)"
    "\<not> stopRequested env (loads st)"
  shows "tryShortCircuit env fuel maximizing node ab st =
     (case (if \<not> stopRequested env (Suc (loads st)) \<and> \<not> (m_helper (searcher st) \<and> level node = 0)
            then consultTable env node ab (table st) else Proceed Move_null ab) of
        Cutoff mr \<Rightarrow> Inr (mr, st\<lparr>loads := Suc (Suc (loads st))\<rparr>)
      | Proceed pvMove ab' \<Rightarrow>
          leafOrChildren env fuel maximizing node pvMove ab' (st\<lparr>loads := Suc (Suc (loads st))\<rparr>))"
  using assms
  by (simp add: tryShortCircuit.simps loadStop_def leafOrChildren_def split: TableOutcome.splits nat.splits)

lemma consultTable_hit:
  "getPositionEntry env (table st) (pos node) (remainingDepth node) = Some entry \<Longrightarrow>
   consultTable env node ab (table st) = useEntry env node ab entry"
  by (simp add: consultTable_def)

text \<open>
  C2. Take a node that reaches the consultation of the table (it has a legal move, its
  own position has not occurred three times, neither load of the stop flag saw a stop)
  and is not the root of a helper, and let the table hold an entry for its position.
  The entry's best move is the principal-variation move that the node goes on with,
  whatever the entry's depth. The entry ends the node or changes its window only when
  its depth is at least the remaining depth and its best move would not repeat a
  position. Then: \<open>InWindow\<close> returns the entry; \<open>LowerBound\<close> returns the entry when its
  rating is at least beta and otherwise raises alpha to the entry's rating (alpha becomes
  the greater of the two); \<open>UpperBound\<close> returns the entry when its rating is at most
  alpha and otherwise lowers beta to the entry's rating (beta becomes the smaller of the
  two).
\<close>

theorem tryShortCircuit_table_entry:
  assumes moves: "legalMoves env (pos node) \<noteq> []"
    and rep: "\<not> 3 \<le> repetitionMap node (pos node)"
    and run1: "\<not> stopRequested env (loads st)"
    and run2: "\<not> stopRequested env (Suc (loads st))"
    and use: "\<not> (m_helper (searcher st) \<and> level node = 0)"
    and hit: "getPositionEntry env (table st) (pos node) (remainingDepth node) = Some entry"
  shows
   "(\<not> (remainingDepth node \<le> entryDepth entry \<and>
        \<not> wouldMakeRepetition env (pos node) (bestMove entry) (repetitionMap node)) \<longrightarrow>
       tryShortCircuit env fuel maximizing node ab st =
         leafOrChildren env fuel maximizing node (bestMove entry) ab
           (st\<lparr>loads := Suc (Suc (loads st))\<rparr>)) \<and>
    (remainingDepth node \<le> entryDepth entry \<and>
       \<not> wouldMakeRepetition env (pos node) (bestMove entry) (repetitionMap node) \<longrightarrow>
       (bound entry = InWindow \<longrightarrow>
          tryShortCircuit env fuel maximizing node ab st =
            Inr (\<lparr>move = bestMove entry, rating = entryRating entry, invalidTTEntry = False,
                  checkmateLevel = None\<rparr>, st\<lparr>loads := Suc (Suc (loads st))\<rparr>)) \<and>
       (bound entry = LowerBound \<longrightarrow>
          tryShortCircuit env fuel maximizing node ab st =
            (if m_beta ab \<le> entryRating entry
             then Inr (\<lparr>move = bestMove entry, rating = entryRating entry,
                        invalidTTEntry = False, checkmateLevel = None\<rparr>,
                       st\<lparr>loads := Suc (Suc (loads st))\<rparr>)
             else leafOrChildren env fuel maximizing node (bestMove entry)
                    (ab\<lparr>m_alpha := max (entryRating entry) (m_alpha ab)\<rparr>)
                    (st\<lparr>loads := Suc (Suc (loads st))\<rparr>))) \<and>
       (bound entry = UpperBound \<longrightarrow>
          tryShortCircuit env fuel maximizing node ab st =
            (if entryRating entry \<le> m_alpha ab
             then Inr (\<lparr>move = bestMove entry, rating = entryRating entry,
                        invalidTTEntry = False, checkmateLevel = None\<rparr>,
                       st\<lparr>loads := Suc (Suc (loads st))\<rparr>)
             else leafOrChildren env fuel maximizing node (bestMove entry)
                    (ab\<lparr>m_beta := min (entryRating entry) (m_beta ab)\<rparr>)
                    (st\<lparr>loads := Suc (Suc (loads st))\<rparr>))))"
proof -
  have step: "tryShortCircuit env fuel maximizing node ab st =
     (case useEntry env node ab entry of
        Cutoff mr \<Rightarrow> Inr (mr, st\<lparr>loads := Suc (Suc (loads st))\<rparr>)
      | Proceed pvMove ab' \<Rightarrow>
          leafOrChildren env fuel maximizing node pvMove ab' (st\<lparr>loads := Suc (Suc (loads st))\<rparr>))"
    using tryShortCircuit_running [OF moves rep run1, of fuel maximizing ab] run2 use
    by (simp add: consultTable_hit [OF hit])
  show ?thesis
    unfolding step
    by (simp add: useEntry_def MoveRating3_def updateAlpha_def updateBeta_def)
qed

lemma lineEnv_sel:
  "legalMoves (lineEnv sch) = (\<lambda>p. [quietMove])" "isCheckmate (lineEnv sch) = (\<lambda>p. False)"
  "applyMove (lineEnv sch) = (\<lambda>p mv. Suc p)" "isWhite (lineEnv sch) = (\<lambda>p. even p)"
  "getRating (lineEnv sch) = (\<lambda>p. 0)"
  "worstPossibleRating (lineEnv sch) = (\<lambda>maximizing. if maximizing then - 1000000 else 1000000)"
  "checkmatedRating (lineEnv sch) = (\<lambda>maximizing. if maximizing then - 100000 else 100000)"
  "childRepetitionMap (lineEnv sch) = (\<lambda>rm p. rm)"
  "getPositionEntry (lineEnv sch) = (\<lambda>tt p d. tt p)"
  "storePositionEntry (lineEnv sch) = (\<lambda>tt p e. tt(p \<mapsto> e))"
  "calcExchangeRating (lineEnv sch) = (\<lambda>p mv. 0)"
  "orderMoves (lineEnv sch) = (\<lambda>p pv killers mps. (mps, length mps))"
  "lmrReduction (lineEnv sch) = (\<lambda>d i. 0)"
  "shuffle (lineEnv sch) = (\<lambda>g mps. (mps, g))"
  "stopRequested (lineEnv sch) = sch"
  by (simp_all add: lineEnv_def)

lemma quietMove_facts:
  "capturedPiece quietMove = Piece_None" "quietMove \<noteq> Move_null" "Move_null \<noteq> quietMove"
  by (simp_all add: quietMove_def Move_null_def)

lemma worker_sel:
  "m_helper (worker h d) = h" "depth (worker h d) = d" "m_urbg (worker h d) = ()"
  by (simp_all add: worker_def Searcher_new_def)

lemmas run_simps = tryShortCircuit.simps bestChildPosition.simps searchChildren.simps
  leafOrChildren_def rootNode_def childNode_def getMovePriorities_def consultTable_def
  useEntry_def loadStop_def finishNode_def betterChild_def update_def updateAlpha_def
  updateBeta_def canPrune_def MoveRating3_def MoveRating_default_def su8_add_def su8_sub_def
  isDone_def MovePriority_of_parent_def MovePriority_full_def wouldMakeRepetition_def
  MAX_DEPTH_def RANDOMIZATION_CUTOFF_def lineEnv_sel quietMove_facts worker_sel
  noRepetitions_def word_le_nat_alt word_less_nat_alt

theorem tryShortCircuit_table_entry_witness:
  "tryShortCircuit (lineEnv (\<lambda>k. False)) 3 True (rootNode 0 1 noRepetitions)
     \<lparr>m_alpha = - 10, m_beta = 10\<rparr>
     (tableWithRoot \<lparr>bestMove = quietMove, entryRating = 12, entryDepth = 4, bound = LowerBound\<rparr> False)
   = Inr (\<lparr>move = quietMove, rating = 12, invalidTTEntry = False, checkmateLevel = None\<rparr>,
          (tableWithRoot \<lparr>bestMove = quietMove, entryRating = 12, entryDepth = 4,
                           bound = LowerBound\<rparr> False)\<lparr>loads := 2\<rparr>)"
  using tryShortCircuit_table_entry [of "lineEnv (\<lambda>k. False)" "rootNode 0 1 noRepetitions"
      "tableWithRoot \<lparr>bestMove = quietMove, entryRating = 12, entryDepth = 4, bound = LowerBound\<rparr> False"
      "\<lparr>bestMove = quietMove, entryRating = 12, entryDepth = 4, bound = LowerBound\<rparr>"
      3 True "\<lparr>m_alpha = - 10, m_beta = 10\<rparr>"]
  by (simp add: tableWithRoot_def rootNode_def noRepetitions_def lineEnv_sel worker_sel
      wouldMakeRepetition_def word_le_nat_alt)

lemma finishNode_flag: "invalidTTEntry (fst (finishNode env maximizing node ab lp st)) = False"
  by (simp add: finishNode_def Let_def)

lemma finishNode_no_store:
  "invalidTTEntry (bestRating lp) \<Longrightarrow>
   finishNode env maximizing node ab lp st = ((bestRating lp)\<lparr>invalidTTEntry := False\<rparr>, st)"
  by (simp add: finishNode_def Let_def)

lemma finishNode_store:
  "\<not> invalidTTEntry (bestRating lp) \<Longrightarrow>
   finishNode env maximizing node ab lp st =
     ((bestRating lp)\<lparr>invalidTTEntry := False\<rparr>,
      st\<lparr>table := storePositionEntry env (table st) (pos node)
            \<lparr>bestMove = move (bestRating lp), entryRating = rating (bestRating lp),
             entryDepth = remainingDepth node,
             bound = (if didNotPrune lp
                      then (if maximizing
                            then (if rating (bestRating lp) \<le> m_alpha ab
                                  then UpperBound else loopBound lp)
                            else (if m_beta ab \<le> rating (bestRating lp)
                                  then LowerBound else loopBound lp))
                      else loopBound lp)\<rparr>\<rparr>)"
  by (simp add: finishNode_def Let_def)

lemma bestChildPosition_result:
  assumes "bestChildPosition env fuel maximizing node pvMove ab st = Inr (mr, st')"
  shows "\<exists>priorities lp0 st1 lp st2.
           searchChildren env fuel maximizing node priorities lp0 st1 = Inr (lp, st2) \<and>
           (mr, st') = finishNode env maximizing node ab lp st2"
  using assms
  by (auto simp: bestChildPosition.simps Let_def split: if_splits sum.splits prod.splits)
     (blast intro: sym)+

lemma bestChildPosition_flag:
  assumes "bestChildPosition env fuel maximizing node pvMove ab st = Inr (mr, st')"
  shows "\<not> invalidTTEntry mr"
proof -
  from bestChildPosition_result [OF assms] obtain lp st2 where
    "(mr, st') = finishNode env maximizing node ab lp st2" by blast
  then have "mr = fst (finishNode env maximizing node ab lp st2)" by (metis fst_conv)
  then show ?thesis by (simp add: finishNode_flag)
qed

lemma useEntry_flag: "useEntry env node ab entry = Cutoff mr \<Longrightarrow> \<not> invalidTTEntry mr"
  by (auto simp: useEntry_def MoveRating3_def split: if_splits Bound.splits)

lemma consultTable_flag: "consultTable env node ab tt = Cutoff mr \<Longrightarrow> \<not> invalidTTEntry mr"
  by (auto simp: consultTable_def split: option.splits dest: useEntry_flag)

lemma leafOrChildren_flag:
  "leafOrChildren env fuel maximizing node pvMove ab st = Inr (mr, st') \<Longrightarrow> \<not> invalidTTEntry mr"
  by (auto simp: leafOrChildren_def MoveRating3_def split: if_splits nat.splits
      dest: bestChildPosition_flag)

lemma tryShortCircuit_flag:
  assumes res: "tryShortCircuit env fuel maximizing node ab st = Inr (mr, st')"
    and flag: "invalidTTEntry mr"
  shows "legalMoves env (pos node) \<noteq> [] \<and> 3 \<le> repetitionMap node (pos node) \<and> st' = st"
proof (cases "legalMoves env (pos node) = []")
  case True
  with res flag show ?thesis
    by (auto simp: tryShortCircuit_no_moves MoveRating_default_def split: if_splits)
next
  case moves: False
  show ?thesis
  proof (cases "3 \<le> repetitionMap node (pos node)")
    case True
    with res moves show ?thesis by (simp add: tryShortCircuit_repetition)
  next
    case rep: False
    show ?thesis
    proof (cases "stopRequested env (loads st)")
      case True
      with res flag moves rep show ?thesis
        by (simp add: tryShortCircuit_stopped MoveRating3_def) auto
    next
      case False
      from res flag show ?thesis
        unfolding tryShortCircuit_running [OF moves rep False]
        by (auto split: TableOutcome.splits if_splits
            dest: consultTable_flag leafOrChildren_flag)
    qed
  qed
qed

text \<open>
  C4. A node that has a legal move and whose own position has occurred three times
  returns the null move with rating 0 and the flag \<open>invalidTTEntry\<close> set, and leaves the
  state as it was; a result of \<open>tryShortCircuit\<close> carries the flag only in that case.
  \<open>bestChildPosition\<close> returns what \<open>finishNode\<close> makes of the loop over the children:
  when the best child result carries the flag (the loop copies the flag of the child it
  prefers), nothing is stored in the table, and the result returned has the flag
  cleared, as every result of \<open>bestChildPosition\<close> has. So the flag goes up one level
  and no further.
\<close>

theorem repetition_flag_one_level:
  "(legalMoves env (pos node) \<noteq> [] \<and> 3 \<le> repetitionMap node (pos node) \<longrightarrow>
      tryShortCircuit env fuel maximizing node ab st =
        Inr (\<lparr>move = Move_null, rating = 0, invalidTTEntry = True, checkmateLevel = None\<rparr>, st)) \<and>
   (tryShortCircuit env fuel maximizing node ab st = Inr (mr, st') \<and> invalidTTEntry mr \<longrightarrow>
      legalMoves env (pos node) \<noteq> [] \<and> 3 \<le> repetitionMap node (pos node) \<and> st' = st) \<and>
   (bestChildPosition env fuel maximizing node pvMove ab st = Inr (mr, st') \<longrightarrow>
      \<not> invalidTTEntry mr \<and>
      (\<exists>priorities lp0 st1 lp st2.
          searchChildren env fuel maximizing node priorities lp0 st1 = Inr (lp, st2) \<and>
          (mr, st') = finishNode env maximizing node ab lp st2)) \<and>
   (invalidTTEntry (bestRating lp) \<longrightarrow>
      finishNode env maximizing node ab lp st =
        ((bestRating lp)\<lparr>invalidTTEntry := False\<rparr>, st)) \<and>
   invalidTTEntry (betterChild maximizing best childRating mv) =
     (if (if maximizing then rating best < rating childRating
          else rating childRating < rating best)
      then invalidTTEntry childRating else invalidTTEntry best)"
proof -
  have a: "legalMoves env (pos node) \<noteq> [] \<and> 3 \<le> repetitionMap node (pos node) \<longrightarrow>
      tryShortCircuit env fuel maximizing node ab st =
        Inr (\<lparr>move = Move_null, rating = 0, invalidTTEntry = True, checkmateLevel = None\<rparr>, st)"
    using tryShortCircuit_repetition [of env node fuel maximizing ab st]
    by (simp add: MoveRating3_def)
  have b: "tryShortCircuit env fuel maximizing node ab st = Inr (mr, st') \<and> invalidTTEntry mr \<longrightarrow>
      legalMoves env (pos node) \<noteq> [] \<and> 3 \<le> repetitionMap node (pos node) \<and> st' = st"
    using tryShortCircuit_flag [of env fuel maximizing node ab st mr st'] by blast
  have c: "bestChildPosition env fuel maximizing node pvMove ab st = Inr (mr, st') \<longrightarrow>
      \<not> invalidTTEntry mr \<and>
      (\<exists>priorities lp0 st1 lp st2.
          searchChildren env fuel maximizing node priorities lp0 st1 = Inr (lp, st2) \<and>
          (mr, st') = finishNode env maximizing node ab lp st2)"
    using bestChildPosition_flag [of env fuel maximizing node pvMove ab st mr st']
      bestChildPosition_result [of env fuel maximizing node pvMove ab st mr st']
    by blast
  have d: "invalidTTEntry (bestRating lp) \<longrightarrow>
      finishNode env maximizing node ab lp st =
        ((bestRating lp)\<lparr>invalidTTEntry := False\<rparr>, st)"
    using finishNode_no_store [of lp env maximizing node ab st] by blast
  have e: "invalidTTEntry (betterChild maximizing best childRating mv) =
     (if (if maximizing then rating best < rating childRating
          else rating childRating < rating best)
      then invalidTTEntry childRating else invalidTTEntry best)"
    by (simp add: betterChild_def)
  from a b c d e show ?thesis by blast
qed

theorem repetition_flag_one_level_witness:
  "legalMoves (lineEnv (\<lambda>k. False)) (pos (rootNode 0 2 (\<lambda>p. 3))) \<noteq> [] \<and>
   3 \<le> repetitionMap (rootNode 0 2 (\<lambda>p. 3)) (pos (rootNode 0 2 (\<lambda>p. 3))) \<and>
   tryShortCircuit (lineEnv (\<lambda>k. False)) 3 True (rootNode 0 2 (\<lambda>p. 3))
      \<lparr>m_alpha = - 10, m_beta = 10\<rparr> (freshState False 2)
     = Inr (\<lparr>move = Move_null, rating = 0, invalidTTEntry = True, checkmateLevel = None\<rparr>,
            freshState False 2) \<and>
   finishNode (lineEnv (\<lambda>k. False)) True (rootNode 0 2 (\<lambda>p. 3)) \<lparr>m_alpha = - 10, m_beta = 10\<rparr>
      \<lparr>alphaBeta = \<lparr>m_alpha = 0, m_beta = 10\<rparr>,
       bestRating = \<lparr>move = quietMove, rating = 0, invalidTTEntry = True, checkmateLevel = None\<rparr>,
       loopBound = InWindow, didNotPrune = True\<rparr> (freshState False 2)
     = (\<lparr>move = quietMove, rating = 0, invalidTTEntry = False, checkmateLevel = None\<rparr>,
        freshState False 2)"
  using repetition_flag_one_level [of "lineEnv (\<lambda>k. False)" "rootNode 0 2 (\<lambda>p. 3)" 3 True
      "\<lparr>m_alpha = - 10, m_beta = 10\<rparr>" "freshState False 2"
      "\<lparr>move = Move_null, rating = 0, invalidTTEntry = True, checkmateLevel = None\<rparr>"
      "freshState False 2" Move_null
      "\<lparr>alphaBeta = \<lparr>m_alpha = 0, m_beta = 10\<rparr>,
       bestRating = \<lparr>move = quietMove, rating = 0, invalidTTEntry = True, checkmateLevel = None\<rparr>,
       loopBound = InWindow, didNotPrune = True\<rparr>"]
  by (simp add: lineEnv_sel rootNode_def)

lemma bestChildPosition_unfold:
  "bestChildPosition env fuel maximizing node pvMove ab st =
     (case orderedChildren env node pvMove st of
        Inl e \<Rightarrow> Inl e
      | Inr (priorities, st1) \<Rightarrow>
          (case searchChildren env fuel maximizing node priorities
                  (ChildLoop_start env maximizing ab) st1 of
             Inl e \<Rightarrow> Inl e
           | Inr (lp, st2) \<Rightarrow> Inr (finishNode env maximizing node ab lp st2)))"
  by (simp add: bestChildPosition.simps orderedChildren_def ChildLoop_start_def Let_def
      split: sum.splits prod.splits)

lemma finishNode_storedBound:
  "finishNode env maximizing node ab lp st =
     ((bestRating lp)\<lparr>invalidTTEntry := False\<rparr>,
      if invalidTTEntry (bestRating lp) then st
      else st\<lparr>table := storePositionEntry env (table st) (pos node)
                 \<lparr>bestMove = move (bestRating lp), entryRating = rating (bestRating lp),
                  entryDepth = remainingDepth node,
                  bound = storedBound maximizing ab lp\<rparr>\<rparr>)"
  by (simp add: finishNode_def storedBound_def Let_def)

lemma helper_root_children:
  assumes h: "legalMoves env (pos node) \<noteq> []" "\<not> 3 \<le> repetitionMap node (pos node)"
      "\<not> stopRequested env (loads st)" "m_helper (searcher st)" "level node = 0"
    and d: "\<not> isDone node" and f: "0 < fuel"
  shows "tryShortCircuit env fuel maximizing node ab st =
           (case orderedChildren env node Move_null (st\<lparr>loads := Suc (Suc (loads st))\<rparr>) of
              Inl e \<Rightarrow> Inl e
            | Inr (priorities, st1) \<Rightarrow>
                (case searchChildren env (fuel - 1) maximizing node priorities
                        (ChildLoop_start env maximizing ab) st1 of
                   Inl e \<Rightarrow> Inl e
                 | Inr (lp, st3) \<Rightarrow>
                     Inr ((bestRating lp)\<lparr>invalidTTEntry := False\<rparr>,
                          if invalidTTEntry (bestRating lp) then st3
                          else st3\<lparr>table := storePositionEntry env (table st3) (pos node)
                                 \<lparr>bestMove = move (bestRating lp),
                                  entryRating = rating (bestRating lp),
                                  entryDepth = remainingDepth node,
                                  bound = storedBound maximizing ab lp\<rparr>\<rparr>)))"
proof -
  from f obtain n where n: "fuel = Suc n" by (cases fuel) auto
  have "tryShortCircuit env fuel maximizing node ab st =
          bestChildPosition env n maximizing node Move_null ab (st\<lparr>loads := Suc (Suc (loads st))\<rparr>)"
    using h d n tryShortCircuit_running [of env node st fuel maximizing ab]
    by (simp add: leafOrChildren_def)
  then show ?thesis
    by (simp add: bestChildPosition_unfold finishNode_storedBound n
        split: sum.splits prod.splits)
qed

text \<open>
  C5. At the root of a helper (level 0) that has a legal move, no threefold repetition
  and no stop request, \<open>tryShortCircuit\<close> goes on with the null move as
  principal-variation move and with the window it was given, whatever the table holds.
  When that root is not done, \<open>tryShortCircuit\<close> returns a result exactly when the
  ordering of the root's moves (with the null move as principal-variation move) and the
  loop over the children that starts from the window given return; the result is then
  the best result of that loop with the flag cleared, and the state is the one the loop
  left with the entry for the root position stored in the table (best move, rating,
  the root's remaining depth, the bound of the loop), unless the best result carried the
  flag. Every other node, with no stop requested, consults the table.
\<close>

theorem helper_root_skips_table:
  "(legalMoves env (pos node) \<noteq> [] \<and> \<not> 3 \<le> repetitionMap node (pos node) \<and>
    \<not> stopRequested env (loads st) \<and> m_helper (searcher st) \<and> level node = 0 \<longrightarrow>
      tryShortCircuit env fuel maximizing node ab st =
        leafOrChildren env fuel maximizing node Move_null ab (st\<lparr>loads := Suc (Suc (loads st))\<rparr>) \<and>
      (\<not> isDone node \<and> 0 < fuel \<longrightarrow>
         (tryShortCircuit env fuel maximizing node ab st = Inr (mr, st')) =
         (\<exists>priorities st1 lp st3.
             orderedChildren env node Move_null (st\<lparr>loads := Suc (Suc (loads st))\<rparr>)
               = Inr (priorities, st1) \<and>
             searchChildren env (fuel - 1) maximizing node priorities
               (ChildLoop_start env maximizing ab) st1 = Inr (lp, st3) \<and>
             mr = (bestRating lp)\<lparr>invalidTTEntry := False\<rparr> \<and>
             st' = (if invalidTTEntry (bestRating lp) then st3
                    else st3\<lparr>table := storePositionEntry env (table st3) (pos node)
                           \<lparr>bestMove = move (bestRating lp),
                            entryRating = rating (bestRating lp),
                            entryDepth = remainingDepth node,
                            bound = storedBound maximizing ab lp\<rparr>\<rparr>)))) \<and>
   (legalMoves env (pos node) \<noteq> [] \<and> \<not> 3 \<le> repetitionMap node (pos node) \<and>
    \<not> stopRequested env (loads st) \<and> \<not> stopRequested env (Suc (loads st)) \<and>
    \<not> (m_helper (searcher st) \<and> level node = 0) \<longrightarrow>
      tryShortCircuit env fuel maximizing node ab st =
        (case consultTable env node ab (table st) of
           Cutoff r \<Rightarrow> Inr (r, st\<lparr>loads := Suc (Suc (loads st))\<rparr>)
         | Proceed pvMove ab' \<Rightarrow>
             leafOrChildren env fuel maximizing node pvMove ab'
               (st\<lparr>loads := Suc (Suc (loads st))\<rparr>)))"
proof (intro conjI impI)
  assume h: "legalMoves env (pos node) \<noteq> [] \<and> \<not> 3 \<le> repetitionMap node (pos node) \<and>
    \<not> stopRequested env (loads st) \<and> m_helper (searcher st) \<and> level node = 0"
  then show "tryShortCircuit env fuel maximizing node ab st =
        leafOrChildren env fuel maximizing node Move_null ab (st\<lparr>loads := Suc (Suc (loads st))\<rparr>)"
    using tryShortCircuit_running [of env node st fuel maximizing ab] by simp
  assume r: "\<not> isDone node \<and> 0 < fuel"
  from h r have eq: "tryShortCircuit env fuel maximizing node ab st =
           (case orderedChildren env node Move_null (st\<lparr>loads := Suc (Suc (loads st))\<rparr>) of
              Inl e \<Rightarrow> Inl e
            | Inr (priorities, st1) \<Rightarrow>
                (case searchChildren env (fuel - 1) maximizing node priorities
                        (ChildLoop_start env maximizing ab) st1 of
                   Inl e \<Rightarrow> Inl e
                 | Inr (lp, st3) \<Rightarrow>
                     Inr ((bestRating lp)\<lparr>invalidTTEntry := False\<rparr>,
                          if invalidTTEntry (bestRating lp) then st3
                          else st3\<lparr>table := storePositionEntry env (table st3) (pos node)
                                 \<lparr>bestMove = move (bestRating lp),
                                  entryRating = rating (bestRating lp),
                                  entryDepth = remainingDepth node,
                                  bound = storedBound maximizing ab lp\<rparr>\<rparr>)))"
    by (intro helper_root_children) simp_all
  show "(tryShortCircuit env fuel maximizing node ab st = Inr (mr, st')) =
         (\<exists>priorities st1 lp st3.
             orderedChildren env node Move_null (st\<lparr>loads := Suc (Suc (loads st))\<rparr>)
               = Inr (priorities, st1) \<and>
             searchChildren env (fuel - 1) maximizing node priorities
               (ChildLoop_start env maximizing ab) st1 = Inr (lp, st3) \<and>
             mr = (bestRating lp)\<lparr>invalidTTEntry := False\<rparr> \<and>
             st' = (if invalidTTEntry (bestRating lp) then st3
                    else st3\<lparr>table := storePositionEntry env (table st3) (pos node)
                           \<lparr>bestMove = move (bestRating lp),
                            entryRating = rating (bestRating lp),
                            entryDepth = remainingDepth node,
                            bound = storedBound maximizing ab lp\<rparr>\<rparr>))"
    unfolding eq
    by (cases "orderedChildren env node Move_null (st\<lparr>loads := Suc (Suc (loads st))\<rparr>)")
       (auto split: sum.splits prod.splits)
next
  assume "legalMoves env (pos node) \<noteq> [] \<and> \<not> 3 \<le> repetitionMap node (pos node) \<and>
    \<not> stopRequested env (loads st) \<and> \<not> stopRequested env (Suc (loads st)) \<and>
    \<not> (m_helper (searcher st) \<and> level node = 0)"
  then show "tryShortCircuit env fuel maximizing node ab st =
        (case consultTable env node ab (table st) of
           Cutoff r \<Rightarrow> Inr (r, st\<lparr>loads := Suc (Suc (loads st))\<rparr>)
         | Proceed pvMove ab' \<Rightarrow>
             leafOrChildren env fuel maximizing node pvMove ab'
               (st\<lparr>loads := Suc (Suc (loads st))\<rparr>))"
    using tryShortCircuit_running [of env node st fuel maximizing ab] by auto
qed

theorem helper_root_skips_table_witness:
  "m_helper (searcher (tableWithRoot
      \<lparr>bestMove = quietMove, entryRating = 12, entryDepth = 4, bound = InWindow\<rparr> True)) \<and>
   \<not> isDone (rootNode 0 1 noRepetitions :: nat Node) \<and>
   orderedChildren (lineEnv (\<lambda>k. False)) (rootNode 0 1 noRepetitions) Move_null
     ((tableWithRoot \<lparr>bestMove = quietMove, entryRating = 12, entryDepth = 4, bound = InWindow\<rparr>
         True)\<lparr>loads := 2\<rparr>)
   = Inr ([\<lparr>m_move = quietMove, m_exchangeRating = 0, m_recommendedDepth = 0, m_trimmed = False\<rparr>],
          (tableWithRoot \<lparr>bestMove = quietMove, entryRating = 12, entryDepth = 4, bound = InWindow\<rparr>
             True)\<lparr>loads := 2\<rparr>) \<and>
   tryShortCircuit (lineEnv (\<lambda>k. False)) 3 True (rootNode 0 1 noRepetitions)
     \<lparr>m_alpha = - 1000000, m_beta = 1000000\<rparr>
     (tableWithRoot \<lparr>bestMove = quietMove, entryRating = 12, entryDepth = 4, bound = InWindow\<rparr> True)
   = Inr (\<lparr>move = quietMove, rating = 0, invalidTTEntry = False, checkmateLevel = None\<rparr>,
          \<lparr>searcher = worker True 1,
           table = [0 \<mapsto> \<lparr>bestMove = quietMove, entryRating = 0, entryDepth = 1, bound = InWindow\<rparr>],
           loads = 4\<rparr>) \<and>
   tryShortCircuit (lineEnv (\<lambda>k. False)) 3 True (rootNode 0 1 noRepetitions)
     \<lparr>m_alpha = - 1000000, m_beta = 1000000\<rparr>
     (tableWithRoot \<lparr>bestMove = quietMove, entryRating = 12, entryDepth = 4, bound = InWindow\<rparr> False)
   = Inr (\<lparr>move = quietMove, rating = 12, invalidTTEntry = False, checkmateLevel = None\<rparr>,
          \<lparr>searcher = worker False 1,
           table = [0 \<mapsto> \<lparr>bestMove = quietMove, entryRating = 12, entryDepth = 4, bound = InWindow\<rparr>],
           loads = 2\<rparr>)"
  using helper_root_skips_table [of "lineEnv (\<lambda>k. False)" "rootNode 0 1 noRepetitions"
     "tableWithRoot \<lparr>bestMove = quietMove, entryRating = 12, entryDepth = 4, bound = InWindow\<rparr> True"
     3 True "\<lparr>m_alpha = - 1000000, m_beta = 1000000\<rparr>"
     "\<lparr>move = quietMove, rating = 0, invalidTTEntry = False, checkmateLevel = None\<rparr>"
     "\<lparr>searcher = worker True 1,
           table = [0 \<mapsto> \<lparr>bestMove = quietMove, entryRating = 0, entryDepth = 1, bound = InWindow\<rparr>],
           loads = 4\<rparr>"]
  by (simp add: tableWithRoot_def run_simps orderedChildren_def)

lemma warmUp_no_moves:
  "legalMoves env p = [] \<Longrightarrow> warmUp env fuel maximizing p rm ds st = Inr st"
  by (induction ds) (simp_all add: startAlphaBetaSearch_def rootNode_def tryShortCircuit_no_moves)

lemma search_unfold:
  "search env fuel p rm st =
     (case warmUp env fuel (isWhite env p) p rm (map of_nat [1 ..< unat (depth (searcher st))]) st of
        Inl e \<Rightarrow> Inl e
      | Inr st' \<Rightarrow>
          startAlphaBetaSearch env fuel (isWhite env p) p (depth (searcher st')) rm st')"
  by (cases "isWhite env p") (simp_all add: search_def iterativeDeepening_def split: sum.splits)

lemma root_stopped:
  assumes "stopRequested env (loads st)"
  shows "\<exists>mr st'. startAlphaBetaSearch env fuel maximizing p d rm st = Inr (mr, st') \<and>
           move mr = Move_null"
proof (cases "legalMoves env p = []")
  case True
  then show ?thesis
    by (simp add: startAlphaBetaSearch_def rootNode_def tryShortCircuit_no_moves
        MoveRating_default_def)
next
  case moves: False
  show ?thesis
  proof (cases "3 \<le> rm p")
    case True
    with moves show ?thesis
      by (simp add: startAlphaBetaSearch_def rootNode_def tryShortCircuit_repetition
          MoveRating3_def)
  next
    case False
    with moves assms show ?thesis
      by (simp add: startAlphaBetaSearch_def rootNode_def tryShortCircuit_stopped
          MoveRating3_def)
  qed
qed

text \<open>
  C9, as amended. The coordinator returns no move whenever a worker's result holds the
  null move, and only otherwise returns the winner of the vote. A worker returns the
  null move for a root without legal moves (stalemate, at any depth), and for a search
  whose stop request is visible when the worker enters the root of its last iteration.
\<close>

theorem chooseMove_no_move:
  "(moveCandidates \<noteq> [] \<and> hasNullMove moveCandidates \<longrightarrow>
      chooseMove rnd searchers moveCandidates = Inr None) \<and>
   (moveCandidates \<noteq> [] \<and> \<not> hasNullMove moveCandidates \<longrightarrow>
      chooseMove rnd searchers moveCandidates =
        (case voteForBestMove rnd searchers moveCandidates of
           Inl e \<Rightarrow> Inl e
         | Inr mv \<Rightarrow> Inr (Some mv))) \<and>
   (legalMoves env p = [] \<longrightarrow>
      (\<exists>mr. search env fuel p rm st = Inr (mr, st) \<and> move mr = Move_null)) \<and>
   (warmUp env fuel (isWhite env p) p rm (map of_nat [1 ..< unat (depth (searcher st))]) st
      = Inr st1 \<and> stopRequested env (loads st1) \<longrightarrow>
      (\<exists>mr st2. search env fuel p rm st = Inr (mr, st2) \<and> move mr = Move_null))"
proof (intro conjI impI)
  assume "moveCandidates \<noteq> [] \<and> hasNullMove moveCandidates"
  then show "chooseMove rnd searchers moveCandidates = Inr None"
    by (simp add: chooseMove_def)
next
  assume "moveCandidates \<noteq> [] \<and> \<not> hasNullMove moveCandidates"
  then show "chooseMove rnd searchers moveCandidates =
        (case voteForBestMove rnd searchers moveCandidates of
           Inl e \<Rightarrow> Inl e
         | Inr mv \<Rightarrow> Inr (Some mv))"
    by (simp add: chooseMove_def)
next
  assume e: "legalMoves env p = []"
  show "\<exists>mr. search env fuel p rm st = Inr (mr, st) \<and> move mr = Move_null"
    using e
    by (simp add: search_unfold warmUp_no_moves startAlphaBetaSearch_def rootNode_def
        tryShortCircuit_no_moves MoveRating_default_def)
next
  assume w: "warmUp env fuel (isWhite env p) p rm
      (map of_nat [1 ..< unat (depth (searcher st))]) st = Inr st1 \<and> stopRequested env (loads st1)"
  then show "\<exists>mr st2. search env fuel p rm st = Inr (mr, st2) \<and> move mr = Move_null"
    using root_stopped [of env st1 fuel "isWhite env p" p "depth (searcher st1)" rm]
    by (simp add: search_unfold)
qed

theorem chooseMove_no_move_witness:
  "hasNullMove [MoveRating3 quietMove 3 False, MoveRating3 Move_null 0 False] \<and>
   chooseMove id [worker False 1, worker True 1]
     [MoveRating3 quietMove 3 False, MoveRating3 Move_null 0 False] = Inr None \<and>
   search ((lineEnv (\<lambda>k. False))\<lparr>legalMoves := (\<lambda>p. [])\<rparr>) 3 0 noRepetitions (freshState False 1)
     = Inr (MoveRating_default, freshState False 1) \<and>
   stopRequested (lineEnv (\<lambda>k. True)) (loads (freshState False 1)) \<and>
   search (lineEnv (\<lambda>k. True)) 3 0 noRepetitions (freshState False 1)
     = Inr (MoveRating3 Move_null 0 False, (freshState False 1)\<lparr>loads := 1\<rparr>)"
  using chooseMove_no_move [of "[MoveRating3 quietMove 3 False, MoveRating3 Move_null 0 False]"
      id "[worker False 1, worker True 1]"
      "(lineEnv (\<lambda>k. False))\<lparr>legalMoves := (\<lambda>p. [])\<rparr>" 0 3 noRepetitions "freshState False 1"
      "freshState False 1"]
    chooseMove_no_move [of "[MoveRating3 quietMove 3 False, MoveRating3 Move_null 0 False]"
      id "[worker False 1, worker True 1]"
      "lineEnv (\<lambda>k. True)" 0 3 noRepetitions "freshState False 1" "freshState False 1"]
  by (simp add: hasNullMove_def chooseMove_def search_unfold startAlphaBetaSearch_def
      freshState_def run_simps lineEnv_def)

text \<open>
  C9, as stated, fails for a search that is cancelled later. A worker of depth 1 on the
  line of forced replies sees no stop at the root (loads 0 and 1) and the stop at the
  child (load 2): the child returns at once, the root takes the child's move, and the
  coordinator returns that move.
\<close>

theorem cancelled_search_counterexample:
  "stopRequested (lineEnv (\<lambda>k. 2 \<le> k)) 2 \<and>
   search (lineEnv (\<lambda>k. 2 \<le> k)) 3 0 noRepetitions (freshState False 1)
     = Inr (\<lparr>move = quietMove, rating = 0, invalidTTEntry = False, checkmateLevel = None\<rparr>,
            \<lparr>searcher = worker False 1,
             table = [0 \<mapsto> \<lparr>bestMove = quietMove, entryRating = 0, entryDepth = 1,
                              bound = InWindow\<rparr>],
             loads = 3\<rparr>) \<and>
   chooseMove id [worker False 1]
     [\<lparr>move = quietMove, rating = 0, invalidTTEntry = False, checkmateLevel = None\<rparr>]
     = Inr (Some quietMove)"
  by (simp add: search_unfold startAlphaBetaSearch_def freshState_def run_simps
      chooseMove_def hasNullMove_def voteForBestMove_def countVotes_def
      anyPathsLeadToCheckmate_def min_element_def max_element_def getVotingWeight_def
      Votes_init_def)

section \<open>The search thread after a committed search\<close>

lemma applyCommand_requested:
  "m_calculationRequested (applyCommand c t) = (m_calculationRequested t \<or> isGo c)"
  by (cases c) (simp_all add: setPosition_def go_def stop_def)

lemma applyCommands_requested:
  "m_calculationRequested (applyCommands commands t) =
     (m_calculationRequested t \<or> list_ex isGo commands)"
  by (induction commands arbitrary: t) (auto simp: applyCommand_requested)

text \<open>
  C8. One turn of the main loop: the snapshot that clears the request, the commands
  that arrive while the committed search runs, and the section after the search. The
  request is set when the lock is taken again exactly when a \<open>go\<close> arrived after the
  snapshot, whatever it was before the snapshot. When the search returned a move and no
  shutdown is requested, the thread prints the move and then, unless a \<open>go\<close> arrived in
  the meantime, applies the move to its stored position and sets \<open>should_ponder\<close>; with a
  \<open>go\<close> in the meantime the state is left as the commands made it. A \<open>go\<close> that follows a
  turn without a \<open>go\<close> in between makes the next snapshot hold the position after the
  move, with no new position message. With a shutdown requested nothing is printed and
  nothing changes. When the search returned no move, \<open>should_ponder\<close> is cleared.
\<close>

theorem committedTurn_ponders:
  "m_calculationRequested (applyCommands commands (t\<lparr>m_calculationRequested := False\<rparr>))
     = list_ex isGo commands \<and>
   committedTurn applyMv getUCIString (Some mv) False commands t =
     (m_state t, [getUCIString mv],
      if list_ex isGo commands
      then applyCommands commands (t\<lparr>m_calculationRequested := False\<rparr>)
      else (applyCommands commands (t\<lparr>m_calculationRequested := False\<rparr>))
             \<lparr>m_state :=
                (m_state (applyCommands commands (t\<lparr>m_calculationRequested := False\<rparr>)))
                  \<lparr>gs_pos := applyMv (gs_pos (m_state
                       (applyCommands commands (t\<lparr>m_calculationRequested := False\<rparr>)))) mv\<rparr>,
              m_shouldPonder := True\<rparr>) \<and>
   committedTurn applyMv getUCIString (Some mv) False [] t =
     (m_state t, [getUCIString mv],
      \<lparr>m_state = (m_state t)\<lparr>gs_pos := applyMv (gs_pos (m_state t)) mv\<rparr>,
       m_shouldPonder = True, m_calculationRequested = False\<rparr>) \<and>
   committedTurn applyMv getUCIString (Some mv) True commands t =
     (m_state t, [], applyCommands commands (t\<lparr>m_calculationRequested := False\<rparr>)) \<and>
   committedTurn applyMv getUCIString None stopTokenRequested commands t =
     (m_state t, [],
      (applyCommands commands (t\<lparr>m_calculationRequested := False\<rparr>))\<lparr>m_shouldPonder := False\<rparr>) \<and>
   (\<not> list_ex isGo commands \<longrightarrow>
      m_shouldPonder (snd (snd (committedTurn applyMv getUCIString (Some mv) False commands t))) \<and>
      fst (takeSnapshot (go d
             (snd (snd (committedTurn applyMv getUCIString (Some mv) False commands t))))) =
        \<lparr>gs_pos = applyMv (gs_pos (m_state
                     (applyCommands commands (t\<lparr>m_calculationRequested := False\<rparr>)))) mv,
         gs_repetitionMap = gs_repetitionMap (m_state
                     (applyCommands commands (t\<lparr>m_calculationRequested := False\<rparr>))),
         gs_depth = d\<rparr>)"
  by (simp add: committedTurn_def takeSnapshot_def afterSearch_def go_def Let_def
      applyCommands_requested)

theorem committedTurn_ponders_witness:
  "\<not> list_ex isGo ([] :: nat Command list) \<and>
   committedTurn (\<lambda>p mv. Suc p) (\<lambda>mv. ''bestmove a1a2'') (Some quietMove) False []
       \<lparr>m_state = \<lparr>gs_pos = (4::nat), gs_repetitionMap = noRepetitions, gs_depth = 6\<rparr>,
        m_shouldPonder = False, m_calculationRequested = True\<rparr>
     = (\<lparr>gs_pos = 4, gs_repetitionMap = noRepetitions, gs_depth = 6\<rparr>,
        [''bestmove a1a2''],
        \<lparr>m_state = \<lparr>gs_pos = 5, gs_repetitionMap = noRepetitions, gs_depth = 6\<rparr>,
         m_shouldPonder = True, m_calculationRequested = False\<rparr>) \<and>
   fst (takeSnapshot (go 6 (snd (snd (committedTurn (\<lambda>p mv. Suc p) (\<lambda>mv. ''bestmove a1a2'')
       (Some quietMove) False []
       \<lparr>m_state = \<lparr>gs_pos = (4::nat), gs_repetitionMap = noRepetitions, gs_depth = 6\<rparr>,
        m_shouldPonder = False, m_calculationRequested = True\<rparr>)))))
     = \<lparr>gs_pos = 5, gs_repetitionMap = noRepetitions, gs_depth = 6\<rparr> \<and>
   committedTurn (\<lambda>p mv. Suc p) (\<lambda>mv. ''bestmove a1a2'') (Some quietMove) False
       [SetPosition \<lparr>gs_pos = 9, gs_repetitionMap = noRepetitions, gs_depth = 6\<rparr>, Go 3]
       \<lparr>m_state = \<lparr>gs_pos = (4::nat), gs_repetitionMap = noRepetitions, gs_depth = 6\<rparr>,
        m_shouldPonder = False, m_calculationRequested = True\<rparr>
     = (\<lparr>gs_pos = 4, gs_repetitionMap = noRepetitions, gs_depth = 6\<rparr>,
        [''bestmove a1a2''],
        \<lparr>m_state = \<lparr>gs_pos = 9, gs_repetitionMap = noRepetitions, gs_depth = 3\<rparr>,
         m_shouldPonder = False, m_calculationRequested = True\<rparr>)"
  using committedTurn_ponders [of "[]"
      "\<lparr>m_state = \<lparr>gs_pos = (4::nat), gs_repetitionMap = noRepetitions, gs_depth = 6\<rparr>,
        m_shouldPonder = False, m_calculationRequested = True\<rparr>"
      "\<lambda>p mv. Suc p" "\<lambda>mv. ''bestmove a1a2''" quietMove False 6]
    committedTurn_ponders [of
      "[SetPosition \<lparr>gs_pos = 9, gs_repetitionMap = noRepetitions, gs_depth = 6\<rparr>, Go 3]"
      "\<lparr>m_state = \<lparr>gs_pos = (4::nat), gs_repetitionMap = noRepetitions, gs_depth = 6\<rparr>,
        m_shouldPonder = False, m_calculationRequested = True\<rparr>"
      "\<lambda>p mv. Suc p" "\<lambda>mv. ''bestmove a1a2''" quietMove False 6]
  by (simp add: committedTurn_def takeSnapshot_def afterSearch_def go_def setPosition_def
      Let_def)

section \<open>The search along a line of forced replies\<close>

lemma byte_of_nat: "n < 256 \<Longrightarrow> unat (byte n) = n"
  by (simp add: byte_def unat_of_nat)

lemma byte_succ: "l < 255 \<Longrightarrow> su8_add (byte l) 1 = Inr (byte (Suc l))"
  by (simp add: su8_add_def word_le_nat_alt unat_sub byte_def unat_of_nat)

lemma byte_pred:
  assumes "0 < k" "k < 256"
  shows "su8_sub (byte k) 1 = Inr (byte (k - 1))"
proof -
  from assms obtain m where k: "k = Suc m" by (cases k) auto
  have u: "unat (byte k) = k" using assms by (rule_tac byte_of_nat)
  have "(1::su8) \<le> byte k"
    using u assms by (simp add: word_le_nat_alt)
  moreover have "byte k - 1 = byte (k - 1)"
    by (simp add: byte_def k)
  ultimately show ?thesis by (simp add: su8_sub_def)
qed

lemma byte_pos: "0 < k \<Longrightarrow> k < 256 \<Longrightarrow> (0::su8) < byte k \<and> byte k \<noteq> 0"
  by (simp add: word_less_nat_alt byte_of_nat unat_eq_0 [symmetric] del: unat_eq_0)

lemma line_priorities:
  assumes "l < d" "d < 256"
  shows "getMovePriorities (lineEnv sch) (lineNode l d) pv ks =
     Inr [\<lparr>m_move = quietMove, m_exchangeRating = 0,
           m_recommendedDepth = byte (d - Suc l), m_trimmed = False\<rparr>]"
proof -
  have k: "0 < d - l" "d - l < 256" using assms by simp_all
  have p: "su8_sub (byte (d - l)) 1 = Inr (byte (d - Suc l))"
    using byte_pred [OF k] by simp
  show ?thesis
    using byte_pos [OF k]
    by (simp add: getMovePriorities_def lineNode_def lineEnv_sel MovePriority_of_parent_def p)
qed

lemma lineNode_sel:
  "pos (lineNode l d) = l" "level (lineNode l d) = byte l"
  "remainingDepth (lineNode l d) = byte (d - l)"
  "repetitionMap (lineNode l d) = noRepetitions"
  by (simp_all add: lineNode_def)

lemma line_consult:
  assumes sh: "shallowTable d tt" and l: "l \<le> d" "d < 256"
  shows "\<exists>pv. consultTable (lineEnv sch) (lineNode l d) ab tt = Proceed pv ab"
proof (cases "tt l")
  case None
  then show ?thesis by (simp add: consultTable_def lineEnv_sel lineNode_sel)
next
  case (Some e)
  with sh have "unat (entryDepth e) + l < d" by (simp add: shallowTable_def)
  then have "\<not> remainingDepth (lineNode l d) \<le> entryDepth e"
    using l by (simp add: lineNode_sel word_le_nat_alt byte_of_nat)
  then show ?thesis
    using Some by (simp add: consultTable_def lineEnv_sel lineNode_sel useEntry_def)
qed

lemma line_node_reaches_children:
  assumes nh: "\<not> m_helper (searcher st)" and sh: "shallowTable d (table st)"
    and l: "l \<le> d" "d < 256"
  shows "\<exists>pv. tryShortCircuit (lineEnv (\<lambda>k. False)) fuel maximizing (lineNode l d) fullWindow st =
           leafOrChildren (lineEnv (\<lambda>k. False)) fuel maximizing (lineNode l d) pv fullWindow
             (st\<lparr>loads := Suc (Suc (loads st))\<rparr>)"
proof -
  from line_consult [OF sh l, of "\<lambda>k. False" fullWindow] obtain pv where
    c: "consultTable (lineEnv (\<lambda>k. False)) (lineNode l d) fullWindow (table st) = Proceed pv fullWindow"
    by blast
  have "tryShortCircuit (lineEnv (\<lambda>k. False)) fuel maximizing (lineNode l d) fullWindow st =
           leafOrChildren (lineEnv (\<lambda>k. False)) fuel maximizing (lineNode l d) pv fullWindow
             (st\<lparr>loads := Suc (Suc (loads st))\<rparr>)"
    using nh c
    by (subst tryShortCircuit_running)
       (simp_all add: lineEnv_sel lineNode_sel noRepetitions_def)
  then show ?thesis by blast
qed

lemma line_child:
  assumes "l < d" "d < 256"
  shows "childNode (lineEnv sch) (lineNode l d)
           \<lparr>m_move = quietMove, m_exchangeRating = 0,
            m_recommendedDepth = byte (d - Suc l), m_trimmed = False\<rparr>
         = Inr (lineNode (Suc l) d)"
  using assms byte_succ [of l]
  by (simp add: childNode_def lineNode_def lineEnv_sel)

text \<open>The children of a node on the line, when the only child returns the rating 0.\<close>

lemma line_children_ok:
  assumes l: "l < d" "d < 256" "l < 30"
    and nh: "\<not> m_helper (searcher st)"
    and child: "tryShortCircuit (lineEnv sch) n (\<not> maximizing) (lineNode (Suc l) d) fullWindow st
                  = Inr (mrc, stc)"
    and r: "rating mrc = 0" and f: "\<not> invalidTTEntry mrc"
  shows "bestChildPosition (lineEnv sch) n maximizing (lineNode l d) pv fullWindow st =
     Inr (mrc\<lparr>move := quietMove\<rparr>,
          stc\<lparr>table := (table stc)(l \<mapsto> \<lparr>bestMove = quietMove, entryRating = 0,
                    entryDepth = byte (d - l), bound = InWindow\<rparr>)\<rparr>)"
  using l nh r f child
  by (cases maximizing)
     (simp_all add: bestChildPosition.simps searchChildren.simps line_priorities line_child
      lineNode_sel lineEnv_sel fullWindow_def byte_of_nat MAX_DEPTH_def MoveRating3_def
      betterChild_def update_def updateAlpha_def updateBeta_def canPrune_def finishNode_def
      quietMove_facts)

lemma line_children_fail:
  assumes l: "l < d" "d < 256" "l < 30"
    and nh: "\<not> m_helper (searcher st)"
    and child: "tryShortCircuit (lineEnv sch) n (\<not> maximizing) (lineNode (Suc l) d) fullWindow st
                  = Inl e"
  shows "bestChildPosition (lineEnv sch) n maximizing (lineNode l d) pv fullWindow st = Inl e"
  using l nh child
  by (cases maximizing)
     (simp_all add: bestChildPosition.simps searchChildren.simps line_priorities line_child
      lineNode_sel lineEnv_sel fullWindow_def byte_of_nat MAX_DEPTH_def MoveRating3_def)

lemma line_level_30:
  "bestChildPosition env n maximizing (lineNode 30 d) pv ab st = Inl OutOfBounds"
  by (simp add: bestChildPosition.simps lineNode_sel MAX_DEPTH_def byte_of_nat)

lemma shallowTable_store:
  assumes "shallowTable (Suc d) tt" "l \<le> d" "d < 256"
  shows "shallowTable (Suc d)
           (tt(l \<mapsto> \<lparr>bestMove = mv, entryRating = r, entryDepth = byte (d - l), bound = b\<rparr>))"
  using assms by (auto simp: shallowTable_def byte_of_nat)

lemma shallowTable_mono: "shallowTable d tt \<Longrightarrow> d \<le> d' \<Longrightarrow> shallowTable d' tt"
  by (fastforce simp: shallowTable_def)

lemma line_descend_ok:
  assumes "\<not> m_helper (searcher st)" "shallowTable d (table st)" "l \<le> d" "d \<le> 30"
    "d - l \<le> fuel"
  shows "\<exists>mr st'. tryShortCircuit (lineEnv (\<lambda>k. False)) fuel maximizing (lineNode l d) fullWindow st
             = Inr (mr, st') \<and>
           rating mr = 0 \<and> \<not> invalidTTEntry mr \<and> searcher st' = searcher st \<and>
           shallowTable (Suc d) (table st')"
  using assms
proof (induction "d - l" arbitrary: l fuel maximizing st)
  case 0
  then have ld: "l = d" by simp
  from line_node_reaches_children [OF "0.prems"(1) "0.prems"(2) "0.prems"(3), of fuel maximizing]
    "0.prems"(4)
  obtain pv where
    "tryShortCircuit (lineEnv (\<lambda>k. False)) fuel maximizing (lineNode l d) fullWindow st =
       leafOrChildren (lineEnv (\<lambda>k. False)) fuel maximizing (lineNode l d) pv fullWindow
         (st\<lparr>loads := Suc (Suc (loads st))\<rparr>)"
    by auto
  then have "tryShortCircuit (lineEnv (\<lambda>k. False)) fuel maximizing (lineNode l d) fullWindow st =
       Inr (MoveRating3 Move_null 0 False, st\<lparr>loads := Suc (Suc (loads st))\<rparr>)"
    by (simp add: leafOrChildren_def isDone_def lineNode_sel ld byte_def lineEnv_sel)
  moreover have "shallowTable (Suc d) (table (st\<lparr>loads := Suc (Suc (loads st))\<rparr>))"
    using "0.prems"(2) by (simp add: shallowTable_mono)
  ultimately show ?case by (simp add: MoveRating3_def)
next
  case (Suc k)
  then have l: "l < d" "d < 256" "l < 30" by simp_all
  from Suc.prems(5) Suc.hyps(2) obtain n where n: "fuel = Suc n" and kn: "d - Suc l \<le> n"
    by (cases fuel) auto
  let ?st2 = "st\<lparr>loads := Suc (Suc (loads st))\<rparr>"
  from line_node_reaches_children [OF Suc.prems(1) Suc.prems(2) Suc.prems(3), of fuel maximizing]
    l(2)
  obtain pv where
    "tryShortCircuit (lineEnv (\<lambda>k. False)) fuel maximizing (lineNode l d) fullWindow st =
       leafOrChildren (lineEnv (\<lambda>k. False)) fuel maximizing (lineNode l d) pv fullWindow ?st2"
    by auto
  moreover have "\<not> isDone (lineNode l d)"
    using byte_pos [of "d - l"] l by (simp add: isDone_def lineNode_sel)
  ultimately have top: "tryShortCircuit (lineEnv (\<lambda>k. False)) fuel maximizing (lineNode l d) fullWindow st =
       bestChildPosition (lineEnv (\<lambda>k. False)) n maximizing (lineNode l d) pv fullWindow ?st2"
    by (simp add: leafOrChildren_def n)
  have k: "k = d - Suc l" using Suc.hyps(2) by simp
  have nh2: "\<not> m_helper (searcher ?st2)" using Suc.prems(1) by simp
  have sh2: "shallowTable d (table ?st2)" using Suc.prems(2) by simp
  have sl: "Suc l \<le> d" using l by simp
  from Suc.hyps(1) [OF k nh2 sh2 sl Suc.prems(4) kn, of "\<not> maximizing"]
  obtain mrc stc where
    child: "tryShortCircuit (lineEnv (\<lambda>k. False)) n (\<not> maximizing) (lineNode (Suc l) d) fullWindow ?st2
              = Inr (mrc, stc)"
    and r: "rating mrc = 0" and f: "\<not> invalidTTEntry mrc"
    and se: "searcher stc = searcher ?st2" and sh: "shallowTable (Suc d) (table stc)"
    by blast
  have "bestChildPosition (lineEnv (\<lambda>k. False)) n maximizing (lineNode l d) pv fullWindow ?st2 =
     Inr (mrc\<lparr>move := quietMove\<rparr>,
          stc\<lparr>table := (table stc)(l \<mapsto> \<lparr>bestMove = quietMove, entryRating = 0,
                    entryDepth = byte (d - l), bound = InWindow\<rparr>)\<rparr>)"
    using l nh2 child r f by (rule line_children_ok)
  moreover have "shallowTable (Suc d)
      ((table stc)(l \<mapsto> \<lparr>bestMove = quietMove, entryRating = 0,
                    entryDepth = byte (d - l), bound = InWindow\<rparr>))"
    using sh Suc.prems(3) l(2) by (rule shallowTable_store)
  ultimately show ?case
    using top r f se by simp
qed

lemma line_descend_fail:
  assumes "\<not> m_helper (searcher st)" "shallowTable 31 (table st)" "l \<le> 30" "31 - l \<le> fuel"
  shows "tryShortCircuit (lineEnv (\<lambda>k. False)) fuel maximizing (lineNode l 31) fullWindow st
           = Inl OutOfBounds"
  using assms
proof (induction "30 - l" arbitrary: l fuel maximizing st)
  case 0
  then have l: "l = 30" by simp
  from "0.prems"(4) l obtain n where n: "fuel = Suc n" by (cases fuel) auto
  let ?st2 = "st\<lparr>loads := Suc (Suc (loads st))\<rparr>"
  from line_node_reaches_children [OF "0.prems"(1) "0.prems"(2), of l fuel maximizing] l
  obtain pv where
    "tryShortCircuit (lineEnv (\<lambda>k. False)) fuel maximizing (lineNode l 31) fullWindow st =
       leafOrChildren (lineEnv (\<lambda>k. False)) fuel maximizing (lineNode l 31) pv fullWindow ?st2"
    by auto
  moreover have "\<not> isDone (lineNode l 31)"
    using byte_pos [of "31 - l"] l by (simp add: isDone_def lineNode_sel)
  ultimately show ?case
    by (simp add: leafOrChildren_def n l line_level_30)
next
  case (Suc k)
  then have l: "l < 31" "(31::nat) < 256" "l < 30" by simp_all
  from Suc.prems(4) l obtain n where n: "fuel = Suc n" and kn: "31 - Suc l \<le> n"
    by (cases fuel) auto
  let ?st2 = "st\<lparr>loads := Suc (Suc (loads st))\<rparr>"
  from line_node_reaches_children [OF Suc.prems(1) Suc.prems(2), of l fuel maximizing] l
  obtain pv where
    "tryShortCircuit (lineEnv (\<lambda>k. False)) fuel maximizing (lineNode l 31) fullWindow st =
       leafOrChildren (lineEnv (\<lambda>k. False)) fuel maximizing (lineNode l 31) pv fullWindow ?st2"
    by auto
  moreover have "\<not> isDone (lineNode l 31)"
    using byte_pos [of "31 - l"] l by (simp add: isDone_def lineNode_sel)
  ultimately have top: "tryShortCircuit (lineEnv (\<lambda>k. False)) fuel maximizing (lineNode l 31) fullWindow st =
       bestChildPosition (lineEnv (\<lambda>k. False)) n maximizing (lineNode l 31) pv fullWindow ?st2"
    by (simp add: leafOrChildren_def n)
  have k: "k = 30 - Suc l" using Suc.hyps(2) by simp
  have nh2: "\<not> m_helper (searcher ?st2)" using Suc.prems(1) by simp
  have sh2: "shallowTable 31 (table ?st2)" using Suc.prems(2) by simp
  have sl: "Suc l \<le> 30" using l by simp
  have child: "tryShortCircuit (lineEnv (\<lambda>k. False)) n (\<not> maximizing) (lineNode (Suc l) 31)
                 fullWindow ?st2 = Inl OutOfBounds"
    using k nh2 sh2 sl kn by (rule Suc.hyps(1))
  have "bestChildPosition (lineEnv (\<lambda>k. False)) n maximizing (lineNode l 31) pv fullWindow ?st2
          = Inl OutOfBounds"
    using l nh2 child by (rule line_children_fail)
  with top show ?case by simp
qed

lemma line_root: "rootNode 0 (of_nat a) noRepetitions = lineNode 0 a"
  by (simp add: rootNode_def lineNode_def byte_def)

lemma line_start:
  "startAlphaBetaSearch (lineEnv sch) fuel maximizing 0 (of_nat a) noRepetitions st =
     tryShortCircuit (lineEnv sch) fuel maximizing (lineNode 0 a) fullWindow st"
  by (simp add: startAlphaBetaSearch_def line_root lineEnv_sel fullWindow_def)

lemma line_warmUp:
  assumes "\<not> m_helper (searcher st)" "shallowTable a (table st)" "1 \<le> a" "a \<le> 31" "30 \<le> fuel"
  shows "\<exists>st'. warmUp (lineEnv (\<lambda>k. False)) fuel True 0 noRepetitions (map of_nat [a ..< 31]) st
             = Inr st' \<and>
           searcher st' = searcher st \<and> shallowTable 31 (table st')"
  using assms
proof (induction "31 - a" arbitrary: a st)
  case 0
  then have "a = 31" by simp
  with "0.prems" show ?case by simp
next
  case (Suc k)
  then have a: "a < 31" by simp
  then have list: "[a ..< 31] = a # [Suc a ..< 31]" by (simp add: upt_conv_Cons)
  have a30: "a \<le> 30" and fa: "a - 0 \<le> fuel" using a Suc.prems(5) by simp_all
  from line_descend_ok [OF Suc.prems(1) Suc.prems(2) _ a30 fa, of True]
  obtain mr st1 where
    it: "tryShortCircuit (lineEnv (\<lambda>k. False)) fuel True (lineNode 0 a) fullWindow st = Inr (mr, st1)"
    and se: "searcher st1 = searcher st" and sh: "shallowTable (Suc a) (table st1)"
    by auto
  have k: "k = 31 - Suc a" using Suc.hyps(2) by simp
  have nh1: "\<not> m_helper (searcher st1)" using se Suc.prems(1) by simp
  have "1 \<le> Suc a" "Suc a \<le> 31" using a by simp_all
  from Suc.hyps(1) [OF k nh1 sh this Suc.prems(5)] obtain st' where
    "warmUp (lineEnv (\<lambda>k. False)) fuel True 0 noRepetitions (map of_nat [Suc a ..< 31]) st1 = Inr st'"
    "searcher st' = searcher st1" "shallowTable 31 (table st')"
    by blast
  then show ?case
    using it se by (simp add: list line_start del: of_nat_Suc)
qed

text \<open>
  C1 does not hold of the code. The main worker, told to search depth 31 from position 0
  of the line with an empty table, completes the iterations of depths 1 to 30; in the
  iteration of depth 31 the node at level 30 has remaining depth 1, and
  \<open>bestChildPosition\<close> reads the killer-move ring of level 30 in an array of 30 rings.
\<close>

theorem killer_table_out_of_bounds:
  "search (lineEnv (\<lambda>k. False)) 31 0 noRepetitions (freshState False 31) = Inl OutOfBounds"
proof -
  let ?st = "freshState False 31"
  have nh: "\<not> m_helper (searcher ?st)" by (simp add: freshState_def worker_sel)
  have sh: "shallowTable 1 (table ?st)" by (simp add: freshState_def shallowTable_def)
  have d: "unat (depth (searcher ?st)) = 31" by (simp add: freshState_def worker_sel)
  have "\<exists>st'. warmUp (lineEnv (\<lambda>k. False)) 31 True 0 noRepetitions (map of_nat [1 ..< 31]) ?st
             = Inr st' \<and>
           searcher st' = searcher ?st \<and> shallowTable 31 (table st')"
    using nh sh by (intro line_warmUp) simp_all
  then obtain st' where
    w: "warmUp (lineEnv (\<lambda>k. False)) 31 True 0 noRepetitions (map of_nat [1 ..< 31]) ?st = Inr st'"
    and se: "searcher st' = searcher ?st" and sh': "shallowTable 31 (table st')"
    by blast
  have nh': "\<not> m_helper (searcher st')" using se nh by simp
  have last: "tryShortCircuit (lineEnv (\<lambda>k. False)) 31 True (lineNode 0 31) fullWindow st'
                = Inl OutOfBounds"
    using nh' sh' by (rule line_descend_fail) simp_all
  have dep: "depth (searcher st') = of_nat 31"
    using se by (simp add: freshState_def worker_sel)
  have "startAlphaBetaSearch (lineEnv (\<lambda>k. False)) 31 True 0 (depth (searcher st')) noRepetitions st'
          = Inl OutOfBounds"
    unfolding dep line_start by (rule last)
  then show ?thesis
    using w d by (simp add: search_unfold lineEnv_sel del: upt_rec_numeral)
qed

lemma warmUp_append:
  "warmUp env fuel maximizing p rm (xs @ ys) st =
     (case warmUp env fuel maximizing p rm xs st of
        Inl e \<Rightarrow> Inl e
      | Inr st' \<Rightarrow> warmUp env fuel maximizing p rm ys st')"
  by (induction xs arbitrary: st) (auto split: sum.splits)

text \<open>The same happens at the depth of the ponder search, 255: its iteration of depth 31
  is the one that fails.\<close>

lemma ponder_depth_out_of_bounds:
  "search (lineEnv (\<lambda>k. False)) 31 0 noRepetitions (freshState False 255) = Inl OutOfBounds"
proof -
  let ?st = "freshState False 255"
  have nh: "\<not> m_helper (searcher ?st)" by (simp add: freshState_def worker_sel)
  have sh: "shallowTable 1 (table ?st)" by (simp add: freshState_def shallowTable_def)
  have d: "unat (depth (searcher ?st)) = 255" by (simp add: freshState_def worker_sel)
  have "\<exists>st'. warmUp (lineEnv (\<lambda>k. False)) 31 True 0 noRepetitions (map of_nat [1 ..< 31]) ?st
             = Inr st' \<and>
           searcher st' = searcher ?st \<and> shallowTable 31 (table st')"
    using nh sh by (intro line_warmUp) simp_all
  then obtain st' where
    w: "warmUp (lineEnv (\<lambda>k. False)) 31 True 0 noRepetitions (map of_nat [1 ..< 31]) ?st = Inr st'"
    and se: "searcher st' = searcher ?st" and sh': "shallowTable 31 (table st')"
    by blast
  have nh': "\<not> m_helper (searcher st')" using se nh by simp
  have last: "tryShortCircuit (lineEnv (\<lambda>k. False)) 31 True (lineNode 0 31) fullWindow st'
                = Inl OutOfBounds"
    using nh' sh' by (rule line_descend_fail) simp_all
  have a: "[1 ..< 255] = [1 ..< 31] @ [31 ..< 255]"
    using upt_add_eq_append [of 1 31 224] by (simp del: upt_rec_numeral)
  have b: "[31 ..< 255] = 31 # [32 ..< 255]"
    by (subst upt_conv_Cons) (simp_all del: upt_rec_numeral)
  have "warmUp (lineEnv (\<lambda>k. False)) 31 True 0 noRepetitions (map of_nat [1 ..< 255]) ?st
          = Inl OutOfBounds"
    unfolding a b map_append warmUp_append w
    using last line_start [of "\<lambda>k. False" 31 True 31 st'] by (simp del: upt_rec_numeral)
  then show ?thesis
    using d by (simp add: search_unfold lineEnv_sel del: upt_rec_numeral)
qed

end
